theory Spec2Isabelle
  imports Main "HOL-Library.Word" "HOL-Library.Signed_Division"
begin

unbundle bit_operations_syntax

section \<open>KnownRounds: a circular bit buffer indexed by round id\<close>

text \<open>
  The development embeds \<^verbatim>\<open>knownRounds/knownRounds.go\<close>. A round id
  (\<^verbatim>\<open>id.Round\<close>) is a \<^verbatim>\<open>uint64\<close> and is modelled as a 64-bit word, so
  that \<open>+\<close> and \<open>-\<close> wrap as they do in Go. Go's \<^verbatim>\<open>int\<close> is the 64-bit two's
  complement integer; it is modelled as \<open>int\<close> with the wrap-around written out
  (\<open>int64\<close>), a conversion \<^verbatim>\<open>int(x)\<close> of a \<^verbatim>\<open>uint64\<close> is \<open>sint\<close>, and
  \<^verbatim>\<open>/\<close>, \<^verbatim>\<open>%\<close> truncate towards zero (\<open>sdiv\<close>, \<open>smod\<close>). A panic of the
  Go runtime or of \<^verbatim>\<open>jww.FATAL.Panicf\<close> is a value of type \<open>panic\<close>.
\<close>

type_synonym Round = "64 word"

type_synonym uint64Buff = "64 word list"

datatype panic =
    OutOfScope          \<comment> \<open>\<^verbatim>\<open>jww.FATAL.Panicf\<close> in \<^verbatim>\<open>Check\<close>\<close>
  | DivideByZero        \<comment> \<open>runtime panic: integer divide by zero\<close>
  | LenOutOfRange       \<comment> \<open>runtime panic: \<^verbatim>\<open>make\<close> with a length out of range\<close>

subsection \<open>Go integers\<close>

definition int64 :: "int \<Rightarrow> int" where
  "int64 k = signed_take_bit 63 k"

text \<open>\<^verbatim>\<open>abs\<close>: the negation wraps, so \<^verbatim>\<open>abs\<close> of the least \<^verbatim>\<open>int\<close> is itself.\<close>

definition abs_go :: "int \<Rightarrow> int" where
  "abs_go n = (if n < 0 then int64 (- n) else n)"

subsection \<open>The bit buffer\<close>

text \<open>
  The file that declares \<^verbatim>\<open>uint64Buff\<close> and its methods is not among the
  sources; the methods are modelled from the specification (section 4.1 and the
  data model of section 3).
\<close>

definition convertLoc :: "uint64Buff \<Rightarrow> int \<Rightarrow> nat \<times> nat" where
  \<comment> \<open>Modelled from the spec: \<^verbatim>\<open>uint64Buff.convertLoc\<close> is missing.
      ``returns (block, bitInBlock) = (pos/64, pos mod 64) with pos taken mod C'',
      where a bit index lies in \<open>[0, 64\<sqdot>W)\<close>.\<close>
  "convertLoc u64b pos =
     (let p = pos mod (64 * int (length u64b)) in (nat (p div 64), nat (p mod 64)))"

definition get_u64b :: "uint64Buff \<Rightarrow> int \<Rightarrow> bool" where
  \<comment> \<open>Modelled from the spec: \<^verbatim>\<open>uint64Buff.get\<close> is missing.
      ``read the bit at absolute position pos. pos is reduced modulo C. Bit i within a
      word is (word >> (63 - i)) & 1.''\<close>
  "get_u64b u64b pos =
     (let (block, i) = convertLoc u64b pos in bit (u64b ! block) (63 - i))"

definition set_u64b :: "uint64Buff \<Rightarrow> int \<Rightarrow> uint64Buff" where
  \<comment> \<open>Modelled from the spec: \<^verbatim>\<open>uint64Buff.set\<close> is missing.
      ``write 1 at pos mod C''.\<close>
  "set_u64b u64b pos =
     (let (block, i) = convertLoc u64b pos
      in u64b[block := set_bit (63 - i) (u64b ! block)])"

definition clear_u64b :: "uint64Buff \<Rightarrow> int \<Rightarrow> uint64Buff" where
  \<comment> \<open>Modelled from the spec: \<^verbatim>\<open>uint64Buff.clear\<close> is missing.
      ``write 0 at pos mod C''.\<close>
  "clear_u64b u64b pos =
     (let (block, i) = convertLoc u64b pos
      in u64b[block := unset_bit (63 - i) (u64b ! block)])"

definition clearRange :: "uint64Buff \<Rightarrow> int \<Rightarrow> int \<Rightarrow> uint64Buff" where
  \<comment> \<open>Modelled from the spec: \<^verbatim>\<open>uint64Buff.clearRange\<close> is missing.
      ``clear bits at absolute positions start, start+1, ..., end - 1, each taken mod C.
      Wrap is legal (may cross the buffer end). If start == end the range is empty.''
      The positions are counted circularly from \<open>start\<close> up to \<open>end\<close>.\<close>
  "clearRange u64b start end =
     fold (\<lambda>k b. clear_u64b b (start + int k))
       [0 ..< nat ((end - start) mod (64 * int (length u64b)))] u64b"

definition delta :: "uint64Buff \<Rightarrow> int \<Rightarrow> int \<Rightarrow> nat" where
  \<comment> \<open>Modelled from the spec: \<^verbatim>\<open>uint64Buff.delta\<close> is missing.
      ``the number of whole 64-bit words spanned by the range [start, end] measured
      circularly forward from start's word to end's word inclusive. Defined as
      ((endBlock - startBlock) mod W) + 1 where block = pos/64.''\<close>
  "delta u64b start end =
     nat ((end div 64 - start div 64) mod int (length u64b)) + 1"

subsection \<open>The engine\<close>

record KnownRounds =
  bitStream :: uint64Buff
  firstUnchecked :: Round
  lastChecked :: Round
  fuPos :: int

text \<open>
  \<^verbatim>\<open>Len\<close>: a slice of 8-byte words has fewer than \<open>2^57\<close> elements, so the
  product does not overflow.
\<close>

definition Len :: "KnownRounds \<Rightarrow> int" where
  "Len kr = int (length (bitStream kr)) * 64"

text \<open>
  \<^verbatim>\<open>NewKnownRound\<close>: \<^verbatim>\<open>make\<close> panics (``makeslice: len out of range'') on a
  negative length and on a slice of more than \<open>maxAlloc\<close> bytes, the bound of the
  Go runtime on one allocation: \<open>2^48\<close> bytes on the 64-bit platforms, where
  \<^verbatim>\<open>int\<close> has the 64 bits assumed here. A word takes 8 bytes. Below that bound the
  memory is taken to be there.
\<close>

definition maxAlloc :: int where
  "maxAlloc = 2 ^ 48"

definition NewKnownRound :: "int \<Rightarrow> panic + KnownRounds" where
  "NewKnownRound roundCapacity =
     (let n = int64 (roundCapacity + 63) sdiv 64
      in if n < 0 \<or> maxAlloc < 8 * n then Inl LenOutOfRange
         else Inr \<lparr> bitStream = replicate (nat n) 0,
                    firstUnchecked = 0, lastChecked = 0, fuPos = 0 \<rparr>)"

text \<open>
  \<^verbatim>\<open>getBitStreamPos\<close> divides by \<^verbatim>\<open>kr.Len()\<close> and panics when the buffer is
  empty. Every caller below tests \<open>Len kr = 0\<close> where the source first evaluates
  \<^verbatim>\<open>getBitStreamPos\<close>; no operation changes the length of the buffer afterwards.
\<close>

definition getBitStreamPos :: "KnownRounds \<Rightarrow> Round \<Rightarrow> int" where
  "getBitStreamPos kr rid =
     (let delta = (if rid < firstUnchecked kr
                   then int64 (- sint (firstUnchecked kr - rid))
                   else sint (rid - firstUnchecked kr))
      in int64 (fuPos kr + delta) smod Len kr)"

text \<open>
  \<^verbatim>\<open>Checked\<close> has a pointer receiver; the model returns the state it leaves
  together with the answer.
\<close>

definition Checked :: "KnownRounds \<Rightarrow> Round \<Rightarrow> panic + bool \<times> KnownRounds" where
  "Checked kr rid =
     (if rid < firstUnchecked kr then Inr (True, kr)
      else if rid > lastChecked kr then Inr (False, kr)
      else if Len kr = 0 then Inl DivideByZero
      else (let pos = getBitStreamPos kr rid
            in Inr (get_u64b (bitStream kr) pos, kr)))"

text \<open>
  The loop of \<^verbatim>\<open>migrateFirstUnchecked\<close>:
  \<^verbatim>\<open>for ; kr.bitStream.get(kr.getBitStreamPos(rid)) && rid < kr.lastChecked; rid++ {}\<close>.
\<close>

function migrateLoop :: "KnownRounds \<Rightarrow> Round \<Rightarrow> Round" where
  "migrateLoop kr rid =
     (if get_u64b (bitStream kr) (getBitStreamPos kr rid) \<and> rid < lastChecked kr
      then migrateLoop kr (rid + 1) else rid)"
  by pat_completeness auto
termination
proof (relation "measure (\<lambda>(kr, rid). unat (lastChecked kr) - unat rid)")
  show "wf (measure (\<lambda>(kr, rid). unat (lastChecked kr) - unat rid))"
    by simp
next
  fix kr :: KnownRounds and rid :: Round
  assume "get_u64b (bitStream kr) (getBitStreamPos kr rid) \<and> rid < lastChecked kr"
  then have lt: "rid < lastChecked kr" by simp
  then have "unat rid < unat (lastChecked kr)"
    by (simp add: word_less_nat_alt)
  moreover have "unat (lastChecked kr) < 2 ^ 64"
    using unsigned_less [of "lastChecked kr"] by simp
  ultimately have "unat rid + 1 < 2 ^ 64" by simp
  then have "unat (rid + 1) = unat rid + 1"
    by (simp add: unat_word_ariths)
  with \<open>unat rid < unat (lastChecked kr)\<close> show "((kr, rid + 1), (kr, rid))
        \<in> measure (\<lambda>(kr, rid). unat (lastChecked kr) - unat rid)"
    by simp
qed

definition migrateFirstUnchecked :: "KnownRounds \<Rightarrow> Round \<Rightarrow> KnownRounds" where
  "migrateFirstUnchecked kr rid =
     (let rid' = migrateLoop kr rid
      in kr\<lparr> fuPos := getBitStreamPos kr rid', firstUnchecked := rid' \<rparr>)"

definition check :: "KnownRounds \<Rightarrow> Round \<Rightarrow> panic + KnownRounds" where
  "check kr rid =
     (if rid < firstUnchecked kr then Inr kr
      else if Len kr = 0 then Inl DivideByZero
      else
        (let pos = getBitStreamPos kr rid;
             kr1 = kr\<lparr> bitStream := set_u64b (bitStream kr) pos \<rparr>;
             kr2 = (if rid > lastChecked kr1
                    then kr1\<lparr> bitStream :=
                                 clearRange (bitStream kr1)
                                   (getBitStreamPos kr1 (lastChecked kr1 + 1)) pos,
                               lastChecked := rid \<rparr>
                    else kr1);
             kr3 = (if getBitStreamPos kr2 (firstUnchecked kr2) = pos
                    then (if getBitStreamPos kr2 (lastChecked kr2) = pos
                          then (let p = getBitStreamPos kr2 (rid + 1)
                                in kr2\<lparr> fuPos := p,
                                        firstUnchecked := rid + 1,
                                        lastChecked := rid + 1,
                                        bitStream := clear_u64b (bitStream kr2) p \<rparr>)
                          else migrateFirstUnchecked kr2 rid)
                    else kr2);
             kr4 = (if rid > firstUnchecked kr3
                       \<and> rid - firstUnchecked kr3 \<ge> word_of_int (Len kr3)
                    then (let newFu = rid + 1 - word_of_int (Len kr3);
                              kr' = kr3\<lparr> fuPos := getBitStreamPos kr3 newFu \<rparr>;
                              kr'' = kr'\<lparr> firstUnchecked :=
                                              rid + 1 - word_of_int (Len kr') \<rparr>
                          in migrateFirstUnchecked kr'' rid)
                    else kr3)
         in Inr (kr4\<lparr> bitStream := set_u64b (bitStream kr4) pos \<rparr>)))"

definition Check :: "KnownRounds \<Rightarrow> Round \<Rightarrow> panic + KnownRounds" where
  "Check kr rid =
     (if Len kr = 0 then Inl DivideByZero
      else if abs_go (sint (lastChecked kr - rid)) sdiv Len kr > 0
      then Inl OutOfScope
      else check kr rid)"

definition Forward :: "KnownRounds \<Rightarrow> Round \<Rightarrow> panic + KnownRounds" where
  "Forward kr rid =
     (if rid > lastChecked kr
      then Inr (kr\<lparr> firstUnchecked := rid, lastChecked := rid,
                    fuPos := uint (rid mod 64) \<rparr>)
      else if rid \<ge> firstUnchecked kr
      then (if Len kr = 0 then Inl DivideByZero
            else Inr (migrateFirstUnchecked kr rid))
      else Inr kr)"

definition ForceCheck :: "KnownRounds \<Rightarrow> Round \<Rightarrow> panic + KnownRounds" where
  "ForceCheck kr rid =
     (if Len kr = 0 then Inl DivideByZero
      else if abs_go (sint (lastChecked kr - rid)) sdiv Len kr > 0
      then (case Forward kr (rid - word_of_int (Len kr)) of
              Inl e \<Rightarrow> Inl e
            | Inr kr' \<Rightarrow> check kr' rid)
      else check kr rid)"

text \<open>
  The order of the cursors, \<open>firstUnchecked \<le> lastChecked + 1\<close>, is kept by
  \<^verbatim>\<open>Forward\<close>, and by \<^verbatim>\<open>Check\<close> and \<^verbatim>\<open>ForceCheck\<close> of any round but the
  greatest.
\<close>

definition cursors_ordered :: "KnownRounds \<Rightarrow> bool" where
  "cursors_ordered kr = (uint (firstUnchecked kr) \<le> uint (lastChecked kr) + 1)"

subsection \<open>RangeUnchecked\<close>

text \<open>
  The caller's \<^verbatim>\<open>roundCheck\<close> is a function of the round; the model records
  the rounds it is invoked on, in order (\<open>calls\<close>). \<^verbatim>\<open>uint\<close> is 64 bits wide.
  A loop either returns from \<^verbatim>\<open>RangeUnchecked\<close> with \<open>earliestChecked\<close>
  (\<open>Returned\<close>) or runs to its end (\<open>Finished\<close>).
\<close>

record scan =
  numChecked :: "64 word"
  earliestChecked :: Round
  calls :: "Round list"

datatype loop_exit = Returned scan | Finished scan

text \<open>
  \<^verbatim>\<open>for i := oldestUnknown; i < kr.firstUnchecked; i++\<close>, the region before the
  buffer.
\<close>

function beforeBuffer ::
  "KnownRounds \<Rightarrow> 64 word \<Rightarrow> (Round \<Rightarrow> bool) \<Rightarrow> Round \<Rightarrow> scan \<Rightarrow> loop_exit" where
  "beforeBuffer kr maxChecked roundCheck i st =
     (if i < firstUnchecked kr
      then (if numChecked st \<ge> maxChecked
            then Returned (st\<lparr> earliestChecked :=
                     (if i < earliestChecked st then i else earliestChecked st) \<rparr>)
            else beforeBuffer kr maxChecked roundCheck (i + 1)
                   (st\<lparr> earliestChecked :=
                          (if \<not> roundCheck i \<and> i < earliestChecked st
                           then i else earliestChecked st),
                        numChecked := numChecked st + 1,
                        calls := calls st @ [i] \<rparr>))
      else Finished st)"
  by pat_completeness auto
termination
proof (relation "measure (\<lambda>(kr, m, f, i, st). unat (firstUnchecked kr) - unat i)")
  show "wf (measure (\<lambda>(kr, m, f, i, st). unat (firstUnchecked kr) - unat i))"
    by simp
next
  fix kr :: KnownRounds and maxChecked :: "64 word" and roundCheck :: "Round \<Rightarrow> bool"
    and i :: Round and st :: scan
  assume lt: "i < firstUnchecked kr"
  then have a: "unat i < unat (firstUnchecked kr)"
    by (simp add: word_less_nat_alt)
  moreover have "unat (firstUnchecked kr) < 2 ^ 64"
    using unsigned_less [of "firstUnchecked kr"] by simp
  ultimately have "unat i + 1 < 2 ^ 64" by simp
  then have "unat (i + 1) = unat i + 1"
    by (simp add: unat_word_ariths)
  with a show "((kr, maxChecked, roundCheck, i + 1,
         st\<lparr> earliestChecked :=
               (if \<not> roundCheck i \<and> i < earliestChecked st
                then i else earliestChecked st),
             numChecked := numChecked st + 1,
             calls := calls st @ [i] \<rparr>),
        (kr, maxChecked, roundCheck, i, st))
        \<in> measure (\<lambda>(kr, m, f, i, st). unat (firstUnchecked kr) - unat i)"
    by simp
qed

text \<open>
  \<^verbatim>\<open>for i := newestRound; i <= kr.lastChecked; i++\<close>, the rounds in the buffer.
  When \<open>lastChecked\<close> is the greatest round id the condition never fails and the
  loop can run forever; the result is then \<open>None\<close>.
\<close>

partial_function (option) inBuffer ::
  "KnownRounds \<Rightarrow> 64 word \<Rightarrow> (Round \<Rightarrow> bool) \<Rightarrow> Round \<Rightarrow> scan
     \<Rightarrow> (panic + loop_exit) option" where
  "inBuffer kr maxChecked roundCheck i st =
     (if i \<le> lastChecked kr
      then (if numChecked st \<ge> maxChecked
            then Some (Inr (Returned (st\<lparr> earliestChecked :=
                     (if i < earliestChecked st then i else earliestChecked st) \<rparr>)))
            else (case Checked kr i of
                    Inl e \<Rightarrow> Some (Inl e)
                  | Inr (c, kr') \<Rightarrow>
                      if \<not> c
                      then inBuffer kr' maxChecked roundCheck (i + 1)
                             (st\<lparr> earliestChecked :=
                                  (if i < earliestChecked st
                                   then i else earliestChecked st) \<rparr>)
                      else inBuffer kr' maxChecked roundCheck (i + 1)
                             (st\<lparr> earliestChecked :=
                                    (if \<not> roundCheck i \<and> i < earliestChecked st
                                     then i else earliestChecked st),
                                  numChecked := numChecked st + 1,
                                  calls := calls st @ [i] \<rparr>)))
      else Some (Inr (Finished st)))"

declare inBuffer.simps [code]

text \<open>
  Vocabulary for the scans: the rounds from \<open>a\<close> to \<open>b\<close> in increasing order, and
  the scan state a loop ends with.
\<close>

definition rounds :: "Round \<Rightarrow> Round \<Rightarrow> Round list" where
  "rounds a b = map word_of_nat [unat a ..< Suc (unat b)]"

fun scan_of :: "loop_exit \<Rightarrow> scan" where
  "scan_of (Returned st) = st"
| "scan_of (Finished st) = st"

definition RangeUnchecked ::
  "KnownRounds \<Rightarrow> Round \<Rightarrow> 64 word \<Rightarrow> (Round \<Rightarrow> bool)
     \<Rightarrow> (panic + Round \<times> Round list) option" where
  "RangeUnchecked kr oldestUnknown maxChecked roundCheck =
     (let st0 = \<lparr> numChecked = 0, earliestChecked = - 1, calls = [] \<rparr>
      in if oldestUnknown > lastChecked kr then Some (Inr (oldestUnknown, []))
         else
           (let newestRound = (if oldestUnknown > firstUnchecked kr
                               then oldestUnknown else firstUnchecked kr);
                before = (if oldestUnknown < firstUnchecked kr
                          then beforeBuffer kr maxChecked roundCheck oldestUnknown st0
                          else Finished st0)
            in case before of
                 Returned st \<Rightarrow> Some (Inr (earliestChecked st, calls st))
               | Finished st1 \<Rightarrow>
                   (case (if newestRound \<ge> firstUnchecked kr
                          then inBuffer kr maxChecked roundCheck newestRound st1
                          else Some (Inr (Finished st1))) of
                      None \<Rightarrow> None
                    | Some (Inl e) \<Rightarrow> Some (Inl e)
                    | Some (Inr (Returned st)) \<Rightarrow>
                        Some (Inr (earliestChecked st, calls st))
                    | Some (Inr (Finished st2)) \<Rightarrow>
                        (let e = (if lastChecked kr + 1 < earliestChecked st2
                                  then lastChecked kr else earliestChecked st2)
                         in Some (Inr (e + 1, calls st2))))))"

subsection \<open>The snapshot codec\<close>

text \<open>
  \<^verbatim>\<open>DiskKnownRounds\<close> carries the bit stream as \<^verbatim>\<open>[]byte\<close>.
\<close>

record DiskKnownRounds =
  BitStream :: "8 word list"
  FirstUnchecked :: "64 word"
  LastChecked :: "64 word"

definition word_bytes :: "64 word \<Rightarrow> 8 word list" where
  "word_bytes w = map (\<lambda>k. ucast (drop_bit (8 * (7 - k)) w)) [0 ..< 8]"

definition marshal_u64b :: "uint64Buff \<Rightarrow> 8 word list" where
  \<comment> \<open>Modelled from the spec: \<^verbatim>\<open>uint64Buff.marshal\<close> is missing.
      ``big-endian concatenation of words into 8\<sqdot>W bytes''.\<close>
  "marshal_u64b u64b = concat (map word_bytes u64b)"

definition bytes_word :: "8 word list \<Rightarrow> 64 word" where
  "bytes_word bs = foldl (\<lambda>w b. push_bit 8 w OR ucast b) 0 bs"

fun unmarshal_u64b :: "8 word list \<Rightarrow> uint64Buff" where
  \<comment> \<open>Modelled from the spec: \<^verbatim>\<open>unmarshal\<close> is missing.
      ``inverse [of marshal]'', giving ``a BitBuffer of len(BitStream)/8 words'': the
      words of the complete groups of eight bytes. \<^verbatim>\<open>Unmarshal\<close> calls it as a
      function of one result, without an error.\<close>
  "unmarshal_u64b (b0 # b1 # b2 # b3 # b4 # b5 # b6 # b7 # bs) =
     bytes_word [b0, b1, b2, b3, b4, b5, b6, b7] # unmarshal_u64b bs"
| "unmarshal_u64b _ = []"

subsubsection \<open>\<^verbatim>\<open>encoding/json\<close> on \<^verbatim>\<open>DiskKnownRounds\<close>\<close>

text \<open>
  \<^verbatim>\<open>json.Marshal\<close> writes the exported fields of a struct in the order of their
  declaration, a \<^verbatim>\<open>[]byte\<close> as a string in standard base64 with padding and a
  \<^verbatim>\<open>uint64\<close> as a decimal number.
\<close>

definition b64chars :: string where
  "b64chars = ''ABCDEFGHIJKLMNOPQRSTUVWXYZabcdefghijklmnopqrstuvwxyz0123456789+/''"

definition b64char :: "nat \<Rightarrow> char" where
  "b64char n = b64chars ! (n mod 64)"

fun base64 :: "8 word list \<Rightarrow> string" where
  "base64 [] = []"
| "base64 [a] =
     [b64char (unat a div 4), b64char (unat a mod 4 * 16), CHR ''='', CHR ''='']"
| "base64 [a, b] =
     [b64char (unat a div 4), b64char (unat a mod 4 * 16 + unat b div 16),
      b64char (unat b mod 16 * 4), CHR ''='']"
| "base64 (a # b # c # bs) =
     [b64char (unat a div 4), b64char (unat a mod 4 * 16 + unat b div 16),
      b64char (unat b mod 16 * 4 + unat c div 64), b64char (unat c mod 64)]
     @ base64 bs"

definition digit :: "int \<Rightarrow> char" where
  "digit n = char_of (48 + n mod 10)"

function decimal :: "int \<Rightarrow> string" where
  "decimal n = (if n < 10 then [digit n] else decimal (n div 10) @ [digit n])"
  by pat_completeness auto
termination
  by (relation "measure nat") auto

definition json_open :: string where
  \<open>json_open = ''{"BitStream":"''\<close>

definition json_FirstUnchecked :: string where
  \<open>json_FirstUnchecked = ''","FirstUnchecked":''\<close>

definition json_LastChecked :: string where
  \<open>json_LastChecked = '',"LastChecked":''\<close>

definition json_Marshal :: "DiskKnownRounds \<Rightarrow> string" where
  "json_Marshal dkr =
     json_open @ base64 (BitStream dkr)
     @ json_FirstUnchecked @ decimal (uint (FirstUnchecked dkr))
     @ json_LastChecked @ decimal (uint (LastChecked dkr)) @ ''}''"

text \<open>
  \<^verbatim>\<open>Marshal\<close>. The compressed buffer has at least one word, so the byte slice
  handed to \<^verbatim>\<open>json.Marshal\<close> is not \<^verbatim>\<open>nil\<close>; \<^verbatim>\<open>json.Marshal\<close> returns no
  error on this struct.
\<close>

definition Marshal :: "KnownRounds \<Rightarrow> panic + string" where
  "Marshal kr =
     (if Len kr = 0 then Inl DivideByZero
      else
        (let startPos = getBitStreamPos kr (firstUnchecked kr);
             endPos = getBitStreamPos kr (lastChecked kr);
             length' = delta (bitStream kr) startPos endPos;
             dkr = \<lparr> BitStream = [],
                     FirstUnchecked = firstUnchecked kr,
                     LastChecked = lastChecked kr \<rparr>;
             (startBlock, _) = convertLoc (bitStream kr) startPos;
             bitStream' = map (\<lambda>i. bitStream kr
                                      ! ((i + startBlock) mod length (bitStream kr)))
                            [0 ..< length']
         in Inr (json_Marshal (dkr\<lparr> BitStream := marshal_u64b bitStream' \<rparr>))))"

text \<open>
  \<^verbatim>\<open>json.Unmarshal\<close> is modelled on the documents that \<^verbatim>\<open>json.Marshal\<close>
  writes for \<^verbatim>\<open>DiskKnownRounds\<close>: the three fields in this order and spelling,
  without white space. On these the model is the decoder. \<^verbatim>\<open>encoding/json\<close>
  itself reads more (white space, other field orders, absent or unknown fields);
  the model gives \<open>None\<close> there and nothing below is stated of such documents.
\<close>

fun strip_prefix :: "string \<Rightarrow> string \<Rightarrow> string option" where
  "strip_prefix [] s = Some s"
| "strip_prefix (p # ps) [] = None"
| "strip_prefix (p # ps) (c # cs) = (if p = c then strip_prefix ps cs else None)"

definition b64val :: "char \<Rightarrow> nat option" where
  "b64val c = map_of (zip b64chars [0 ..< 64]) c"

definition byte_of_nat :: "nat \<Rightarrow> 8 word" where
  "byte_of_nat n = word_of_nat n"

fun unbase64 :: "string \<Rightarrow> 8 word list option" where
  "unbase64 [] = Some []"
| "unbase64 (c0 # c1 # c2 # c3 # cs) =
     (case (b64val c0, b64val c1) of
        (Some v0, Some v1) \<Rightarrow>
          if cs = [] \<and> c3 = CHR ''='' \<and> c2 = CHR ''=''
          then Some [byte_of_nat (v0 * 4 + v1 div 16)]
          else (case b64val c2 of
                  Some v2 \<Rightarrow>
                    if cs = [] \<and> c3 = CHR ''=''
                    then Some [byte_of_nat (v0 * 4 + v1 div 16),
                               byte_of_nat (v1 mod 16 * 16 + v2 div 4)]
                    else (case b64val c3 of
                            Some v3 \<Rightarrow>
                              map_option
                                (\<lambda>bs. byte_of_nat (v0 * 4 + v1 div 16)
                                     # byte_of_nat (v1 mod 16 * 16 + v2 div 4)
                                     # byte_of_nat (v2 mod 4 * 64 + v3) # bs)
                                (unbase64 cs)
                          | None \<Rightarrow> None)
                | None \<Rightarrow> None)
      | _ \<Rightarrow> None)"
| "unbase64 _ = None"

definition is_digit :: "char \<Rightarrow> bool" where
  "is_digit c = ((48 :: int) \<le> of_char c \<and> of_char c \<le> (57 :: int))"

definition digits_value :: "string \<Rightarrow> int" where
  "digits_value ds = foldl (\<lambda>a c. 10 * a + (of_char c - 48)) 0 ds"

text \<open>
  A \<^verbatim>\<open>uint64\<close> field accepts a JSON number without sign, fraction or exponent
  that is less than \<open>2^64\<close>; JSON numbers have no leading zeros.
\<close>

definition parse_uint64 :: "string \<Rightarrow> (64 word \<times> string) option" where
  "parse_uint64 s =
     (let ds = takeWhile is_digit s; n = digits_value ds
      in if decimal n = ds \<and> n < 2 ^ 64
         then Some (word_of_int n, dropWhile is_digit s) else None)"

definition json_Unmarshal :: "string \<Rightarrow> DiskKnownRounds option" where
  "json_Unmarshal data =
     (case strip_prefix json_open data of
        None \<Rightarrow> None
      | Some s1 \<Rightarrow>
          (case unbase64 (takeWhile (\<lambda>c. c \<noteq> CHR 0x22) s1) of
             None \<Rightarrow> None
           | Some bs \<Rightarrow>
               (case strip_prefix json_FirstUnchecked
                       (dropWhile (\<lambda>c. c \<noteq> CHR 0x22) s1) of
                  None \<Rightarrow> None
                | Some s2 \<Rightarrow>
                    (case parse_uint64 s2 of
                       None \<Rightarrow> None
                     | Some (fu, s3) \<Rightarrow>
                         (case strip_prefix json_LastChecked s3 of
                            None \<Rightarrow> None
                          | Some s4 \<Rightarrow>
                              (case parse_uint64 s4 of
                                 None \<Rightarrow> None
                               | Some (lc, s5) \<Rightarrow>
                                   if s5 = ''}''
                                   then Some \<lparr> BitStream = bs,
                                               FirstUnchecked = fu,
                                               LastChecked = lc \<rparr>
                                   else None))))))"

datatype unmarshal_error =
    JsonError               \<comment> \<open>the error of \<^verbatim>\<open>json.Unmarshal\<close>\<close>
  | SizeError nat nat       \<comment> \<open>``KnownRounds bitStream size of %d is too small \<dots>''\<close>

text \<open>Go's \<^verbatim>\<open>copy(dst, src)\<close> on slices.\<close>

definition copy_go :: "'a list \<Rightarrow> 'a list \<Rightarrow> 'a list" where
  "copy_go dst src = take (length dst) src @ drop (length src) dst"

definition Unmarshal :: "KnownRounds \<Rightarrow> string \<Rightarrow> unmarshal_error + KnownRounds" where
  "Unmarshal kr data =
     (case json_Unmarshal data of
        None \<Rightarrow> Inl JsonError
      | Some dkr \<Rightarrow>
          (let bitStream' = unmarshal_u64b (BitStream dkr);
               r = (if length (bitStream kr) = 0
                    then Inr (kr\<lparr> bitStream := bitStream' \<rparr>)
                    else if length (bitStream kr) \<ge> length bitStream'
                    then Inr (kr\<lparr> bitStream :=
                                     copy_go (bitStream kr) bitStream' \<rparr>)
                    else Inl (SizeError (length (bitStream kr))
                                (length bitStream')))
           in case r of
                Inl e \<Rightarrow> Inl e
              | Inr kr1 \<Rightarrow>
                  Inr (kr1\<lparr> bitStream := copy_go (bitStream kr1) bitStream',
                             firstUnchecked := FirstUnchecked dkr,
                             lastChecked := LastChecked dkr,
                             fuPos := uint (FirstUnchecked dkr mod 64) \<rparr>)))"

section \<open>Properties\<close>

declare migrateLoop.simps [simp del]
declare beforeBuffer.simps [simp del]
declare decimal.simps [simp del]

subsection \<open>Go integers\<close>

lemma int64_id: "- (2 ^ 63) \<le> k \<Longrightarrow> k < 2 ^ 63 \<Longrightarrow> int64 k = k"
  by (simp add: int64_def signed_take_bit_int_eq_self)

lemma sdiv_pos: "0 \<le> a \<Longrightarrow> 0 < l \<Longrightarrow> (a::int) sdiv l = a div l"
  by (cases "a = 0") (simp_all add: signed_divide_int_def)

lemma smod_pos: "0 \<le> a \<Longrightarrow> 0 < l \<Longrightarrow> (a::int) smod l = a mod l"
  by (cases "a = 0") (simp_all add: signed_modulo_int_def)

lemma ceil64:
  fixes c :: int
  shows "c \<le> 64 * ((c + 63) div 64) \<and> 64 * ((c + 63) div 64) < c + 64"
proof -
  have "c + 63 = 64 * ((c + 63) div 64) + (c + 63) mod 64" by simp
  moreover have "0 \<le> (c + 63) mod 64" "(c + 63) mod 64 < 64" by simp_all
  ultimately show ?thesis by linarith
qed

lemma int64_wrap:
  assumes "2 ^ 63 \<le> k" and "k < 2 ^ 64"
  shows "int64 k = k - 2 ^ 64"
proof -
  have "take_bit 64 (k - 2 ^ 64) = take_bit 64 k"
    by (simp add: take_bit_eq_mod)
  then have "signed_take_bit 63 k = signed_take_bit 63 (k - 2 ^ 64)"
    by (simp add: signed_take_bit_eq_iff_take_bit_eq)
  also have "\<dots> = k - 2 ^ 64"
    using assms by (intro signed_take_bit_int_eq_self) auto
  finally show ?thesis by (simp add: int64_def)
qed

lemma sdiv_neg:
  fixes a :: int
  assumes "a \<le> - 64"
  shows "a sdiv 64 < 0"
proof -
  have "1 \<le> (- a) div 64"
    using assms by (simp add: pos_imp_zdiv_pos_iff Suc_le_eq flip: zless_iff_Suc_zadd)
  moreover have "a sdiv 64 = - ((- a) div 64)"
    using assms by (simp add: signed_divide_int_def sgn_if)
  ultimately show ?thesis by simp
qed

lemma sint_diff:
  fixes a b :: "64 word"
  assumes "\<bar>uint a - uint b\<bar> < 2 ^ 63"
  shows "sint (a - b) = uint a - uint b"
proof -
  have "sint (a - b) = signed_take_bit 63 (uint a - uint b)"
    by (simp add: sint_uint uint_sub_if' signed_take_bit_eq_iff_take_bit_eq take_bit_eq_mod)
  also have "\<dots> = uint a - uint b"
    using assms by (intro signed_take_bit_int_eq_self) auto
  finally show ?thesis .
qed

lemma abs_go_sint_diff:
  fixes a b :: "64 word"
  assumes "\<bar>uint a - uint b\<bar> < 2 ^ 63"
  shows "abs_go (sint (a - b)) = \<bar>uint a - uint b\<bar>"
proof -
  have s: "sint (a - b) = uint a - uint b" using assms by (rule sint_diff)
  show ?thesis
  proof (cases "uint a - uint b < 0")
    case True
    then have "int64 (- (uint a - uint b)) = - (uint a - uint b)"
      using assms by (intro int64_id) auto
    with True show ?thesis by (simp add: abs_go_def s)
  next
    case False
    then show ?thesis by (simp add: abs_go_def s)
  qed
qed

lemma pow2:
  "(2::int) ^ 63 = 9223372036854775808" "(2::int) ^ 64 = 18446744073709551616"
  by simp_all

lemma uint_sub_Len:
  fixes rid :: "64 word"
  assumes "0 < l" "l < 2 ^ 63" "uint rid < l"
  shows "uint (rid - word_of_int l) = 2 ^ 64 + uint rid - l"
proof -
  have "uint (word_of_int l :: 64 word) = l"
    using assms by (simp add: uint_word_of_int take_bit_eq_mod)
  then have "uint (rid - word_of_int l) = (uint rid - l) mod 2 ^ 64"
    by (simp add: uint_word_arith_bintrs take_bit_eq_mod)
  also have "\<dots> = (2 ^ 64 + uint rid - l) mod 2 ^ 64"
    by (metis add_diff_eq mod_add_self1)
  also have "\<dots> = 2 ^ 64 + uint rid - l"
  proof (rule mod_pos_pos_trivial)
    have "0 \<le> uint rid" by simp
    then show "0 \<le> 2 ^ 64 + uint rid - l" using assms unfolding pow2 by linarith
    show "2 ^ 64 + uint rid - l < 2 ^ 64" using assms unfolding pow2 by linarith
  qed
  finally show ?thesis .
qed

lemma Len_pos: "bitStream kr \<noteq> [] \<Longrightarrow> 0 < Len kr"
  by (simp add: Len_def)

lemma check_returns: "bitStream kr \<noteq> [] \<Longrightarrow> \<exists>kr'. check kr rid = Inr kr'"
  using Len_pos [of kr] by (simp add: check_def Let_def)

lemma word_succ_le:
  fixes x y :: "64 word"
  assumes "x < y"
  shows "x + 1 \<le> y" and "x < x + 1" and "uint (x + 1) = uint x + 1"
proof -
  have a: "uint x < uint y" using assms by (simp add: word_less_def)
  have "uint y < 2 ^ 64" using uint_lt2p [of y] by simp
  with a have b: "uint x + 1 < 2 ^ 64" by linarith
  have "0 \<le> uint x" by simp
  then have "(uint x + 1) mod 2 ^ 64 = uint x + 1"
    using b by (intro mod_pos_pos_trivial) linarith+
  then show c: "uint (x + 1) = uint x + 1"
    by (simp add: uint_word_ariths take_bit_eq_mod)
  show "x + 1 \<le> y" using a c by (simp add: word_le_def)
  show "x < x + 1" using c by (simp add: word_less_def)
qed

lemma migrateLoop_bounds:
  "rid \<le> lastChecked kr \<Longrightarrow>
     rid \<le> migrateLoop kr rid \<and> migrateLoop kr rid \<le> lastChecked kr"
proof (induction kr rid rule: migrateLoop.induct)
  case (1 kr rid)
  show ?case
  proof (cases "get_u64b (bitStream kr) (getBitStreamPos kr rid) \<and> rid < lastChecked kr")
    case True
    then have lt: "rid < lastChecked kr" by simp
    have "rid + 1 \<le> migrateLoop kr (rid + 1) \<and> migrateLoop kr (rid + 1) \<le> lastChecked kr"
      using "1.IH" [OF True] word_succ_le(1) [OF lt] by simp
    moreover have "rid \<le> rid + 1" using word_succ_le(2) [OF lt] by simp
    moreover have "migrateLoop kr rid = migrateLoop kr (rid + 1)"
      by (subst migrateLoop.simps) (rule if_P [OF True])
    ultimately show ?thesis by auto
  next
    case False
    have "migrateLoop kr rid = rid"
      by (subst migrateLoop.simps) (rule if_not_P [OF False])
    then show ?thesis using "1.prems" by simp
  qed
qed








lemma getBitStreamPos_firstUnchecked:
  "getBitStreamPos kr (firstUnchecked kr) = int64 (fuPos kr) smod Len kr"
  by (simp add: getBitStreamPos_def)




subsection \<open>The bit buffer\<close>

lemma length_set_u64b [simp]: "length (set_u64b b p) = length b"
  by (simp add: set_u64b_def split: prod.split)

lemma length_clear_u64b [simp]: "length (clear_u64b b p) = length b"
  by (simp add: clear_u64b_def split: prod.split)

lemma length_fold_clear:
  "length (fold (\<lambda>k b. clear_u64b b (f k)) ks b) = length b"
  by (induction ks arbitrary: b) simp_all

lemma length_clearRange [simp]: "length (clearRange b s e) = length b"
  by (simp add: clearRange_def length_fold_clear)

lemma div64_less:
  fixes x n :: int
  assumes "x < 64 * n"
  shows "x div 64 < n"
proof -
  have "x = 64 * (x div 64) + x mod 64" by simp
  moreover have "0 \<le> x mod 64" by simp
  ultimately have "64 * (x div 64) \<le> x" by linarith
  then show ?thesis using assms by linarith
qed

lemma convertLoc_bounds:
  assumes "b \<noteq> []"
  shows "fst (convertLoc b p) < length b" and "snd (convertLoc b p) < 64"
proof -
  let ?C = "64 * int (length b)"
  have C: "0 < ?C" using assms by simp
  have m: "0 \<le> p mod ?C" "p mod ?C < ?C" using C by simp_all
  have "(p mod ?C) div 64 < int (length b)"
    using m(2) by (rule div64_less)
  moreover have "0 \<le> (p mod ?C) div 64" using m(1) by simp
  ultimately show "fst (convertLoc b p) < length b"
    by (simp add: convertLoc_def Let_def)
  have "(p mod ?C) mod 64 < 64" by simp
  then show "snd (convertLoc b p) < 64"
    by (simp add: convertLoc_def Let_def)
qed

lemma set_u64b_twice: "set_u64b (set_u64b b p) p = set_u64b b p"
proof -
  obtain blk i where c: "convertLoc b p = (blk, i)" by (cases "convertLoc b p")
  have c': "convertLoc (b[blk := x]) p = (blk, i)" for x
    using c by (simp add: convertLoc_def)
  have s: "set_bit (63 - i) (set_bit (63 - i) w) = set_bit (63 - i) w" for w :: "64 word"
    by (rule bit_eqI) (auto simp: bit_simps)
  show ?thesis
  proof (cases "blk < length b")
    case True
    then show ?thesis by (simp add: set_u64b_def c c' s)
  next
    case False
    then show ?thesis by (simp add: set_u64b_def c c' list_update_beyond)
  qed
qed

lemma get_set_u64b_same: "b \<noteq> [] \<Longrightarrow> get_u64b (set_u64b b p) p"
proof -
  assume ne: "b \<noteq> []"
  obtain blk i where c: "convertLoc b p = (blk, i)" by (cases "convertLoc b p")
  have c': "convertLoc (b[blk := x]) p = (blk, i)" for x
    using c by (simp add: convertLoc_def)
  have blk: "blk < length b" using convertLoc_bounds(1) [OF ne, of p] c by simp
  have "63 - i < (64::nat)" by arith
  then show ?thesis using blk by (simp add: get_u64b_def set_u64b_def c c' bit_simps)
qed

subsection \<open>Positions\<close>

lemma Len_updates [simp]:
  "Len (kr\<lparr> lastChecked := l \<rparr>) = Len kr"
  "Len (kr\<lparr> firstUnchecked := f \<rparr>) = Len kr"
  "Len (kr\<lparr> fuPos := q \<rparr>) = Len kr"
  "Len (kr\<lparr> bitStream := set_u64b (bitStream kr) p \<rparr>) = Len kr"
  "Len (kr\<lparr> bitStream := clear_u64b (bitStream kr) p \<rparr>) = Len kr"
  "Len (kr\<lparr> bitStream := clearRange (bitStream kr) s e \<rparr>) = Len kr"
  by (simp_all add: Len_def)

lemma Len_bitStream: "length b = length (bitStream kr) \<Longrightarrow> Len (kr\<lparr> bitStream := b \<rparr>) = Len kr"
  by (simp add: Len_def)

lemma getBitStreamPos_cong:
  "fuPos a = fuPos b \<Longrightarrow> firstUnchecked a = firstUnchecked b \<Longrightarrow> Len a = Len b
     \<Longrightarrow> getBitStreamPos a r = getBitStreamPos b r"
  by (simp add: getBitStreamPos_def)

lemma getBitStreamPos_updates [simp]:
  "getBitStreamPos (kr\<lparr> lastChecked := l \<rparr>) r = getBitStreamPos kr r"
  "getBitStreamPos (kr\<lparr> bitStream := set_u64b (bitStream kr) p \<rparr>) r = getBitStreamPos kr r"
  "getBitStreamPos (kr\<lparr> bitStream := clear_u64b (bitStream kr) p \<rparr>) r = getBitStreamPos kr r"
  "getBitStreamPos (kr\<lparr> bitStream := clearRange (bitStream kr) s e \<rparr>) r = getBitStreamPos kr r"
  by (rule getBitStreamPos_cong; simp)+

lemma getBitStreamPos_bitStream:
  "length b = length (bitStream kr)
     \<Longrightarrow> getBitStreamPos (kr\<lparr> bitStream := b \<rparr>) r = getBitStreamPos kr r"
  by (rule getBitStreamPos_cong) (simp_all add: Len_def)

text \<open>The position of a round at or above \<open>firstUnchecked\<close>, without overflow.\<close>

lemma getBitStreamPos_above:
  assumes sz: "Len kr < 2 ^ 62" and L: "0 < Len kr"
    and P: "0 \<le> fuPos kr" "fuPos kr < Len kr"
    and le: "firstUnchecked kr \<le> rid"
    and d: "uint rid - uint (firstUnchecked kr) < 2 ^ 62"
  shows "getBitStreamPos kr rid
           = (fuPos kr + (uint rid - uint (firstUnchecked kr))) mod Len kr"
proof -
  let ?d = "uint rid - uint (firstUnchecked kr)"
  have d0: "0 \<le> ?d" using le by (simp add: word_le_def)
  have p62: "(2::int) ^ 62 = 4611686018427387904" by simp
  have "\<bar>?d\<bar> < 2 ^ 63" using d0 d unfolding p62 pow2 by linarith
  then have s: "sint (rid - firstUnchecked kr) = ?d" by (rule sint_diff)
  have "int64 (fuPos kr + ?d) = fuPos kr + ?d"
  proof (rule int64_id)
    show "- (2 ^ 63) \<le> fuPos kr + ?d" using P(1) d0 unfolding pow2 by linarith
    show "fuPos kr + ?d < 2 ^ 63" using P(2) sz d unfolding p62 pow2 by linarith
  qed
  moreover have "(fuPos kr + ?d) smod Len kr = (fuPos kr + ?d) mod Len kr"
    using P(1) d0 L by (intro smod_pos) linarith+
  ultimately show ?thesis using le by (simp add: getBitStreamPos_def s Let_def not_less [symmetric])
qed

lemma getBitStreamPos_distinct:
  assumes sz: "Len kr < 2 ^ 62" and L: "0 < Len kr"
    and P: "0 \<le> fuPos kr" "fuPos kr < Len kr"
    and lt: "firstUnchecked kr < rid"
    and d: "uint rid - uint (firstUnchecked kr) < Len kr"
  shows "getBitStreamPos kr (firstUnchecked kr) \<noteq> getBitStreamPos kr rid"
proof -
  let ?d = "uint rid - uint (firstUnchecked kr)"
  have p62: "(2::int) ^ 62 = 4611686018427387904" by simp
  have d0: "0 < ?d" using lt by (simp add: word_less_def)
  have d62: "?d < 2 ^ 62" using d sz by linarith
  have a: "getBitStreamPos kr rid = (fuPos kr + ?d) mod Len kr"
    using sz L P lt d62 by (intro getBitStreamPos_above) simp_all
  have "getBitStreamPos kr (firstUnchecked kr) = (fuPos kr + 0) mod Len kr"
    using getBitStreamPos_above [OF sz L P, of "firstUnchecked kr"] by simp
  then have b: "getBitStreamPos kr (firstUnchecked kr) = fuPos kr"
    using P by simp
  show ?thesis
  proof
    assume "getBitStreamPos kr (firstUnchecked kr) = getBitStreamPos kr rid"
    then have e: "(fuPos kr + ?d) mod Len kr = fuPos kr" using a b by simp
    have "(fuPos kr + ?d) mod Len kr = fuPos kr + ?d \<or> (fuPos kr + ?d) mod Len kr = fuPos kr + ?d - Len kr"
    proof (cases "fuPos kr + ?d < Len kr")
      case True
      then show ?thesis using P(1) d0 by (simp add: mod_pos_pos_trivial)
    next
      case False
      have "(fuPos kr + ?d) mod Len kr = (fuPos kr + ?d - Len kr) mod Len kr"
        by simp
      also have "\<dots> = fuPos kr + ?d - Len kr"
        using False P(2) d by (intro mod_pos_pos_trivial) linarith+
      finally show ?thesis by simp
    qed
    then show False using e d0 d by linarith
  qed
qed

lemma uint_word_of_Len:
  assumes "0 < Len kr" "Len kr < 2 ^ 62"
  shows "uint (word_of_int (Len kr) :: 64 word) = Len kr"
proof -
  have p62: "(2::int) ^ 62 = 4611686018427387904" by simp
  have "Len kr mod 2 ^ 64 = Len kr"
    using assms unfolding p62 pow2 by (intro mod_pos_pos_trivial) linarith+
  then show ?thesis by (simp add: uint_word_of_int take_bit_eq_mod)
qed

lemma no_lap:
  assumes "0 < Len kr" "Len kr < 2 ^ 62"
    and "firstUnchecked kr \<le> rid"
    and "uint rid - uint (firstUnchecked kr) < Len kr"
  shows "\<not> word_of_int (Len kr) \<le> rid - firstUnchecked kr"
proof -
  have "uint (rid - firstUnchecked kr) = uint rid - uint (firstUnchecked kr)"
    using assms(3) by (simp add: uint_sub_lem word_le_def) 
  then show ?thesis
    using assms(4) uint_word_of_Len [OF assms(1,2)] by (simp add: word_le_def)
qed

lemma check_inside:
  assumes sz: "Len kr < 2 ^ 62" and L: "0 < Len kr"
    and P: "0 \<le> fuPos kr" "fuPos kr < Len kr"
    and lt: "firstUnchecked kr < rid"
    and d: "uint rid - uint (firstUnchecked kr) < Len kr"
  shows "check kr rid =
           Inr (kr\<lparr> bitStream :=
                       set_u64b
                         (if lastChecked kr < rid
                          then clearRange (set_u64b (bitStream kr) (getBitStreamPos kr rid))
                                 (getBitStreamPos kr (lastChecked kr + 1))
                                 (getBitStreamPos kr rid)
                          else set_u64b (bitStream kr) (getBitStreamPos kr rid))
                         (getBitStreamPos kr rid),
                     lastChecked := (if lastChecked kr < rid then rid else lastChecked kr) \<rparr>)"
proof -
  have nl: "\<not> rid < firstUnchecked kr" using lt by simp
  have ne: "getBitStreamPos kr (firstUnchecked kr) \<noteq> getBitStreamPos kr rid"
    using sz L P lt d by (rule getBitStreamPos_distinct)
  have lap: "\<not> word_of_int (Len kr) \<le> rid - firstUnchecked kr"
    using L sz lt d by (intro no_lap) simp_all
  show ?thesis
  proof (cases "lastChecked kr < rid")
    case True
    then show ?thesis using nl L ne lap lt
      by (simp add: check_def Let_def Len_bitStream getBitStreamPos_bitStream)
  next
    case False
    then show ?thesis using nl L ne lap lt
      by (simp add: check_def Let_def)
  qed
qed

lemma word_less_succ:
  fixes x :: "64 word"
  assumes "x \<noteq> - 1"
  shows "x < x + 1"
proof -
  have "x \<le> - 1" by simp
  then have "x < - 1" using assms by (rule le_neq_trans)
  then show ?thesis by (rule word_succ_le(2))
qed

lemma migrateFirstUnchecked_fields:
  "firstUnchecked (migrateFirstUnchecked kr r) = migrateLoop kr r"
  "lastChecked (migrateFirstUnchecked kr r) = lastChecked kr"
  "bitStream (migrateFirstUnchecked kr r) = bitStream kr"
  "fuPos (migrateFirstUnchecked kr r) = getBitStreamPos kr (migrateLoop kr r)"
  "Len (migrateFirstUnchecked kr r) = Len kr"
  by (simp_all add: migrateFirstUnchecked_def Let_def Len_def)

lemma check_at_first:
  assumes W: "bitStream kr \<noteq> []"
    and eq: "rid = firstUnchecked kr"
    and nomax: "rid \<noteq> - 1"
  shows "\<exists>kr'. check kr rid = Inr kr' \<and> rid < firstUnchecked kr'
           \<and> (lastChecked kr' = rid + 1 \<or> lastChecked kr' = lastChecked kr)
           \<and> Len kr' = Len kr"
proof -
  have L: "0 < Len kr" using W by (rule Len_pos)
  have nl: "\<not> firstUnchecked kr < firstUnchecked kr" by simp
  have s: "firstUnchecked kr < firstUnchecked kr + 1"
    using nomax eq word_less_succ by simp
  then have s': "\<not> firstUnchecked kr + 1 < firstUnchecked kr" by simp
  let ?pos = "getBitStreamPos kr (firstUnchecked kr)"
  show ?thesis
  proof (cases "lastChecked kr < firstUnchecked kr")
    case True
    then show ?thesis using L nl s s'
      by (simp add: eq check_def Let_def Len_bitStream getBitStreamPos_bitStream)
  next
    case False
    show ?thesis
    proof (cases "getBitStreamPos kr (lastChecked kr) = ?pos")
      case True
      then show ?thesis using L nl s s' False
        by (simp add: eq check_def Let_def Len_bitStream getBitStreamPos_bitStream)
    next
      case ne: False
      then have "lastChecked kr \<noteq> firstUnchecked kr" by auto
      then have lt: "firstUnchecked kr < lastChecked kr" using False by simp
      let ?kr1 = "kr\<lparr> bitStream := set_u64b (bitStream kr) ?pos \<rparr>"
      have c: "get_u64b (bitStream ?kr1) (getBitStreamPos ?kr1 (firstUnchecked kr))
                 \<and> firstUnchecked kr < lastChecked ?kr1"
        using lt W by (simp add: get_set_u64b_same)
      have "migrateLoop ?kr1 (firstUnchecked kr) = migrateLoop ?kr1 (firstUnchecked kr + 1)"
        by (subst migrateLoop.simps) (rule if_P [OF c])
      moreover have "firstUnchecked kr + 1 \<le> migrateLoop ?kr1 (firstUnchecked kr + 1)"
        using migrateLoop_bounds [of "firstUnchecked kr + 1" ?kr1] word_succ_le(1) [OF lt]
        by simp
      ultimately have m: "firstUnchecked kr < migrateLoop ?kr1 (firstUnchecked kr)"
        using s by simp
      then have m': "\<not> migrateLoop ?kr1 (firstUnchecked kr) < firstUnchecked kr" by simp
      show ?thesis using L nl False ne m m'
        by (simp add: eq check_def Let_def Len_bitStream migrateFirstUnchecked_fields)
    qed
  qed
qed

lemma guard_near:
  assumes "64 \<le> l"
  shows "\<not> 0 < abs_go (sint (r - r :: 64 word)) sdiv l"
    and "\<not> 0 < abs_go (sint (r + 1 - r :: 64 word)) sdiv l"
proof -
  show "\<not> 0 < abs_go (sint (r - r :: 64 word)) sdiv l"
    by (simp add: abs_go_def)
  have "(1::int) sdiv l = 1 div l" using assms by (intro sdiv_pos) auto
  then have "(1::int) sdiv l = 0" using assms by simp
  then show "\<not> 0 < abs_go (sint (r + 1 - r :: 64 word)) sdiv l"
    by (simp add: abs_go_def)
qed

text \<open>
  Away from the greatest round id, \<^verbatim>\<open>check\<close> of a round at or above
  \<open>firstUnchecked\<close> leaves \<open>firstUnchecked \<le> lastChecked\<close>.
\<close>

lemma check_order:
  assumes W: "bitStream kr \<noteq> []" and nomax: "rid \<noteq> - 1"
    and ge: "firstUnchecked kr \<le> rid"
  shows "\<exists>kr'. check kr rid = Inr kr' \<and> firstUnchecked kr' \<le> lastChecked kr'"
proof -
  have L: "0 < Len kr" using W by (rule Len_pos)
  have nl: "\<not> rid < firstUnchecked kr" using ge by simp
  have s: "\<not> rid + 1 < rid" using word_less_succ [OF nomax] by simp
  define pos where "pos = getBitStreamPos kr rid"
  define kr2 where "kr2 =
     (if lastChecked kr < rid
      then kr\<lparr> bitStream := clearRange (set_u64b (bitStream kr) pos)
                                 (getBitStreamPos kr (lastChecked kr + 1)) pos,
                lastChecked := rid \<rparr>
      else kr\<lparr> bitStream := set_u64b (bitStream kr) pos \<rparr>)"
  have fu2: "firstUnchecked kr2 = firstUnchecked kr" by (simp add: kr2_def)
  have lc2: "rid \<le> lastChecked kr2" by (simp add: kr2_def not_less)
  have ge2: "firstUnchecked kr2 \<le> lastChecked kr2" using ge lc2 by (simp add: fu2)
  have L2: "Len kr2 = Len kr" by (simp add: kr2_def Len_def)
  define kr3 where "kr3 =
     (if getBitStreamPos kr2 (firstUnchecked kr2) = pos
      then (if getBitStreamPos kr2 (lastChecked kr2) = pos
            then (let p = getBitStreamPos kr2 (rid + 1)
                  in kr2\<lparr> fuPos := p, firstUnchecked := rid + 1, lastChecked := rid + 1,
                          bitStream := clear_u64b (bitStream kr2) p \<rparr>)
            else migrateFirstUnchecked kr2 rid)
      else kr2)"
  have L3: "Len kr3 = Len kr"
    by (simp add: kr3_def Let_def L2 migrateFirstUnchecked_fields Len_bitStream)
  have m2: "rid \<le> migrateLoop kr2 rid" "migrateLoop kr2 rid \<le> lastChecked kr2"
    using migrateLoop_bounds [OF lc2] by simp_all
  have o3: "firstUnchecked kr3 \<le> lastChecked kr3"
    using ge2 m2 by (simp add: kr3_def Let_def migrateFirstUnchecked_fields)
  have c3: "firstUnchecked kr3 < rid \<Longrightarrow> rid \<le> lastChecked kr3"
    using lc2 m2 s by (auto simp: kr3_def Let_def migrateFirstUnchecked_fields split: if_splits)
  define kr4 where "kr4 =
     (if firstUnchecked kr3 < rid \<and> word_of_int (Len kr3) \<le> rid - firstUnchecked kr3
      then (let newFu = rid + 1 - word_of_int (Len kr3);
                kr' = kr3\<lparr> fuPos := getBitStreamPos kr3 newFu \<rparr>;
                kr'' = kr'\<lparr> firstUnchecked := rid + 1 - word_of_int (Len kr') \<rparr>
            in migrateFirstUnchecked kr'' rid)
      else kr3)"
  have o4: "firstUnchecked kr4 \<le> lastChecked kr4"
  proof (cases "firstUnchecked kr3 < rid \<and> word_of_int (Len kr3) \<le> rid - firstUnchecked kr3")
    case True
    let ?k = "kr3\<lparr> fuPos := getBitStreamPos kr3 (rid + 1 - word_of_int (Len kr3)),
                    firstUnchecked := rid + 1 - word_of_int (Len kr3) \<rparr>"
    have "rid \<le> lastChecked ?k" using c3 True by simp
    from migrateLoop_bounds [OF this]
    have "migrateLoop ?k rid \<le> lastChecked kr3" by simp
    then show ?thesis using True
      by (simp add: kr4_def Let_def migrateFirstUnchecked_fields)
  next
    case False
    then show ?thesis using o3 by (auto simp: kr4_def)
  qed
  have "check kr rid = Inr (kr4\<lparr> bitStream := set_u64b (bitStream kr4) pos \<rparr>)"
    using nl L
    by (simp add: check_def Let_def kr4_def kr3_def kr2_def pos_def cong: if_cong)
  then show ?thesis using o4 by simp
qed


lemma le_cursors_ordered: "firstUnchecked kr \<le> lastChecked kr \<Longrightarrow> cursors_ordered kr"
  by (simp add: cursors_ordered_def word_le_def)

lemma check_cursors_ordered:
  assumes "bitStream kr \<noteq> []" and "rid \<noteq> - 1" and "cursors_ordered kr"
    and "check kr rid = Inr kr'"
  shows "cursors_ordered kr'"
proof (cases "rid < firstUnchecked kr")
  case True
  then show ?thesis using assms(3,4) by (simp add: check_def)
next
  case False
  then have "firstUnchecked kr \<le> rid" by simp
  from check_order [OF assms(1,2) this] assms(4) show ?thesis
    by (auto intro: le_cursors_ordered)
qed

lemma Forward_cursors_ordered:
  assumes "cursors_ordered kr" and "Forward kr rid = Inr kr'"
  shows "cursors_ordered kr'"
proof -
  consider (beyond) "lastChecked kr < rid"
    | (inside) "\<not> lastChecked kr < rid" "firstUnchecked kr \<le> rid"
    | (before) "\<not> lastChecked kr < rid" "\<not> firstUnchecked kr \<le> rid"
    by blast
  then show ?thesis
  proof cases
    case beyond
    then show ?thesis using assms(2)
      by (auto simp: Forward_def intro: le_cursors_ordered)
  next
    case inside
    then have "rid \<le> lastChecked kr" by simp
    from migrateLoop_bounds [OF this] inside assms(2) show ?thesis
      by (auto simp: Forward_def migrateFirstUnchecked_fields split: if_splits
               intro!: le_cursors_ordered)
  next
    case before
    then show ?thesis using assms by (simp add: Forward_def)
  qed
qed

lemma Forward_bitStream:
  "Forward kr rid = Inr kr' \<Longrightarrow> bitStream kr' = bitStream kr"
  by (auto simp: Forward_def migrateFirstUnchecked_fields split: if_splits)

lemma Check_cursors_ordered:
  assumes "rid \<noteq> - 1" and "cursors_ordered kr" and "Check kr rid = Inr kr'"
  shows "cursors_ordered kr'"
proof -
  have "Len kr \<noteq> 0" and c: "check kr rid = Inr kr'"
    using assms(3) by (auto simp: Check_def split: if_splits)
  then have "bitStream kr \<noteq> []" by (auto simp: Len_def)
  then show ?thesis using assms(1,2) c by (rule check_cursors_ordered)
qed

lemma ForceCheck_cursors_ordered:
  assumes "rid \<noteq> - 1" and "cursors_ordered kr" and "ForceCheck kr rid = Inr kr'"
  shows "cursors_ordered kr'"
proof -
  have W: "bitStream kr \<noteq> []"
    using assms(3) by (auto simp: ForceCheck_def Len_def split: if_splits)
  show ?thesis
  proof (cases "0 < abs_go (sint (lastChecked kr - rid)) sdiv Len kr")
    case True
    then obtain k where F: "Forward kr (rid - word_of_int (Len kr)) = Inr k"
      and c: "check k rid = Inr kr'"
      using assms(3) W by (auto simp: ForceCheck_def Len_def split: if_splits sum.splits)
    have "cursors_ordered k" using assms(2) F by (rule Forward_cursors_ordered)
    moreover have "bitStream k \<noteq> []" using W Forward_bitStream [OF F] by simp
    ultimately show ?thesis using assms(1) c
      by (intro check_cursors_ordered [of k rid kr']) simp_all
  next
    case False
    then have "check kr rid = Inr kr'"
      using assms(3) W by (auto simp: ForceCheck_def Len_def split: if_splits)
    with W assms(1,2) show ?thesis by (intro check_cursors_ordered [of kr rid kr']) simp_all
  qed
qed

lemma NewKnownRound_fits:
  assumes "0 \<le> c" and "c \<le> 2 ^ 51"
  shows "NewKnownRound c =
           Inr \<lparr> bitStream = replicate (nat ((c + 63) div 64)) 0,
                 firstUnchecked = 0, lastChecked = 0, fuPos = 0 \<rparr>"
proof -
  have a: "int64 (c + 63) = c + 63" using assms by (intro int64_id) auto
  have b: "(c + 63) sdiv 64 = (c + 63) div 64" using assms by (intro sdiv_pos) auto
  have d: "0 \<le> (c + 63) div 64" using assms by simp
  have "64 * ((c + 63) div 64) < c + 64" using ceil64 [of c] by simp
  then have "8 * ((c + 63) div 64) \<le> 2 ^ 48" using assms(2) by simp
  then show ?thesis
    using d unfolding NewKnownRound_def a b maxAlloc_def by (simp add: Let_def)
qed

lemma NewKnownRound_too_large:
  assumes "2 ^ 51 < c" and "c < 2 ^ 63"
  shows "NewKnownRound c = Inl LenOutOfRange"
proof (cases "c + 63 < 2 ^ 63")
  case True
  have a: "int64 (c + 63) = c + 63" using assms True by (intro int64_id) auto
  have b: "(c + 63) sdiv 64 = (c + 63) div 64" using assms by (intro sdiv_pos) auto
  have "c \<le> 64 * ((c + 63) div 64)" using ceil64 [of c] by simp
  then have "2 ^ 48 < 8 * ((c + 63) div 64)" using assms(1) by simp
  then show ?thesis
    unfolding NewKnownRound_def a b maxAlloc_def by (simp add: Let_def)
next
  case False
  then have a: "int64 (c + 63) = c + 63 - 2 ^ 64"
    using assms by (intro int64_wrap) auto
  have "c + 63 - 2 ^ 64 \<le> - 64" using assms(2) by simp
  then have "(c + 63 - 2 ^ 64) sdiv 64 < 0" by (rule sdiv_neg)
  then show ?thesis
    unfolding NewKnownRound_def a by (simp add: Let_def)
qed

lemma NewKnownRound_cursors_ordered:
  "NewKnownRound c = Inr kr \<Longrightarrow> cursors_ordered kr"
  by (auto simp: NewKnownRound_def Let_def cursors_ordered_def split: if_splits)

lemma Checked_cases:
  "bitStream kr \<noteq> [] \<Longrightarrow> Checked kr j = Inr (True, kr) \<or> Checked kr j = Inr (False, kr)"
  using Len_pos [of kr] by (auto simp: Checked_def Let_def)

lemma unat_succ:
  fixes i :: "64 word"
  assumes "i \<noteq> - 1"
  shows "unat (i + 1) = Suc (unat i)"
proof -
  have "i \<le> - 1" by simp
  then have "i < - 1" using assms by (rule le_neq_trans)
  then have "unat i < unat (- 1 :: 64 word)" by (simp only: word_less_nat_alt)
  moreover have "unat (- 1 :: 64 word) < 2 ^ 64"
    using unsigned_less [of "- 1 :: 64 word"] by simp
  ultimately have "unat i + 1 < 2 ^ 64" by linarith
  then show ?thesis by (simp add: unat_word_ariths)
qed

lemma rounds_Cons:
  assumes "i \<le> l" and "l \<noteq> - 1"
  shows "rounds i l = i # rounds (i + 1) l"
proof -
  have a: "unat i \<le> unat l" using assms(1) by (simp add: word_le_nat_alt)
  have "i \<noteq> - 1"
  proof
    assume "i = - 1"
    then have "l = - 1" using assms(1) by (simp add: word_order.extremum_unique)
    then show False using assms(2) by simp
  qed
  then have b: "unat (i + 1) = Suc (unat i)" by (rule unat_succ)
  have "[unat i ..< Suc (unat l)] = unat i # [Suc (unat i) ..< Suc (unat l)]"
    using a by (simp add: upt_conv_Cons)
  then show ?thesis by (simp add: rounds_def b)
qed

lemma rounds_Nil: "unat i = Suc (unat l) \<Longrightarrow> rounds i l = []"
  by (simp add: rounds_def)

lemma rounds_greater:
  assumes "j \<in> set (rounds (i + 1) l)" and "i \<le> l" and "l \<noteq> - 1"
  shows "i < j"
proof -
  have "i \<noteq> - 1"
  proof
    assume "i = - 1"
    then have "l = - 1" using assms(2) by (simp add: word_order.extremum_unique)
    then show False using assms(3) by simp
  qed
  then have b: "unat (i + 1) = Suc (unat i)" by (rule unat_succ)
  obtain k where k: "j = word_of_nat k" "Suc (unat i) \<le> k" "k < Suc (unat l)"
    using assms(1) by (auto simp: rounds_def b)
  have "k \<le> unat l" using k(3) by simp
  then have "unat j = k" unfolding k(1) by (rule le_unat_uoi)
  then show ?thesis using k(2) by (simp add: word_less_nat_alt)
qed

lemma earliest_absorb:
  fixes e1 i :: "64 word"
  assumes "\<And>j. j \<in> set rest \<Longrightarrow> i < j" and "e1 \<le> i"
  shows "(case find P rest of None \<Rightarrow> e1 | Some j \<Rightarrow> if j < e1 then j else e1) = e1"
proof (cases "find P rest")
  case None
  then show ?thesis by simp
next
  case (Some j)
  then have "j \<in> set rest" by (auto simp: find_Some_iff)
  then have "i < j" by (rule assms(1))
  then have "\<not> j < e1" using assms(2) by simp
  then show ?thesis using Some by simp
qed

lemma unat_succ_less:
  fixes n m :: "64 word"
  assumes "n < m"
  shows "unat (n + 1) = Suc (unat n)"
proof (rule unat_succ)
  show "n \<noteq> - 1"
  proof
    assume "n = - 1"
    then have "m \<le> n" by simp
    then show False using assms by simp
  qed
qed

lemma word_bytes_eq:
  "word_bytes w = [ucast (drop_bit 56 w), ucast (drop_bit 48 w), ucast (drop_bit 40 w),
                   ucast (drop_bit 32 w), ucast (drop_bit 24 w), ucast (drop_bit 16 w),
                   ucast (drop_bit 8 w), ucast w]"
  by (simp add: word_bytes_def upt_rec)

lemma byte_step:
  fixes w :: "64 word"
  shows "push_bit 8 (drop_bit (m + 8) w) OR ucast (ucast (drop_bit m w) :: 8 word)
           = drop_bit m w"
proof (rule bit_eqI)
  fix n
  assume "possible_bit TYPE(64 word) n"
  then have n64: "n < 64" by simp
  show "bit (push_bit 8 (drop_bit (m + 8) w) OR ucast (ucast (drop_bit m w) :: 8 word)) n
          = bit (drop_bit m w) n"
  proof (cases "n < 8")
    case True
    then show ?thesis by (simp add: bit_simps)
  next
    case False
    then have "m + 8 + (n - 8) = m + n" by simp
    then show ?thesis using False n64 by (auto simp: bit_simps ac_simps)
  qed
qed

lemma byte_top:
  fixes w :: "64 word"
  shows "ucast (ucast (drop_bit 56 w) :: 8 word) = drop_bit 56 w"
proof (rule bit_eqI)
  fix n
  assume "possible_bit TYPE(64 word) n"
  show "bit (ucast (ucast (drop_bit 56 w) :: 8 word) :: 64 word) n = bit (drop_bit 56 w) n"
  proof (cases "n < 8")
    case True
    then show ?thesis by (simp add: bit_simps)
  next
    case False
    then have "\<not> 56 + n < 64" by simp
    then have "\<not> bit w (56 + n)" by (auto dest: bit_imp_le_length) 
    then show ?thesis using False by (simp add: bit_simps)
  qed
qed

lemma bytes_word_word_bytes: "bytes_word (word_bytes w) = w"
proof -
  have "bytes_word (word_bytes w) =
          push_bit 8 (push_bit 8 (push_bit 8 (push_bit 8 (push_bit 8 (push_bit 8 (push_bit 8
            (ucast (ucast (drop_bit 56 w) :: 8 word))
            OR ucast (ucast (drop_bit 48 w) :: 8 word))
            OR ucast (ucast (drop_bit 40 w) :: 8 word))
            OR ucast (ucast (drop_bit 32 w) :: 8 word))
            OR ucast (ucast (drop_bit 24 w) :: 8 word))
            OR ucast (ucast (drop_bit 16 w) :: 8 word))
            OR ucast (ucast (drop_bit 8 w) :: 8 word))
            OR ucast (ucast w :: 8 word)"
    by (simp add: word_bytes_eq bytes_word_def)
  also have "\<dots> = w"
    using byte_step [of 48 w] byte_step [of 40 w] byte_step [of 32 w] byte_step [of 24 w]
      byte_step [of 16 w] byte_step [of 8 w] byte_step [of 0 w]
    by (simp add: byte_top)
  finally show ?thesis .
qed

lemma length_word_bytes [simp]: "length (word_bytes w) = 8"
  by (simp add: word_bytes_def)

lemma length_marshal_u64b: "length (marshal_u64b ws) = 8 * length ws"
  by (induction ws) (simp_all add: marshal_u64b_def)

lemma unmarshal_word_bytes:
  "unmarshal_u64b (word_bytes w @ bs) = w # unmarshal_u64b bs"
proof -
  have "unmarshal_u64b (word_bytes w @ bs)
          = bytes_word (word_bytes w) # unmarshal_u64b bs"
    by (simp add: word_bytes_eq)
  then show ?thesis by (simp add: bytes_word_word_bytes)
qed

lemma unmarshal_marshal: "unmarshal_u64b (marshal_u64b ws) = ws"
proof (induction ws)
  case Nil
  then show ?case by (simp add: marshal_u64b_def)
next
  case (Cons w ws)
  have "marshal_u64b (w # ws) = word_bytes w @ marshal_u64b ws"
    by (simp add: marshal_u64b_def)
  then show ?case using Cons by (simp add: unmarshal_word_bytes)
qed

subsection \<open>The snapshot codec\<close>

lemma strip_prefix_append: "strip_prefix p (p @ s) = Some s"
  by (induction p) simp_all

lemma b64_table:
  "\<forall>n \<in> set [0 ..< 64]. b64val (b64char n) = Some n \<and> b64char n \<noteq> CHR ''=''
       \<and> b64char n \<noteq> CHR 0x22"
  by code_simp

lemma b64char_facts:
  assumes "n < 64"
  shows "b64val (b64char n) = Some n" and "b64char n \<noteq> CHR ''=''"
    and "b64char n \<noteq> CHR 0x22"
  using b64_table assms by auto

lemma byte_of_nat_unat: "byte_of_nat (unat a) = a"
  by (simp add: byte_of_nat_def)

lemma unat_byte: "unat (a :: 8 word) < 256"
  using unsigned_less [of a] by simp

lemma unbase64_base64: "unbase64 (base64 bs) = Some bs"
proof (induction bs rule: base64.induct)
  case 1
  then show ?case by simp
next
  case (2 a)
  have a: "unat a div 4 < 64" "unat a mod 4 * 16 < 64" using unat_byte [of a] by simp_all
  have "unat a div 4 * 4 + unat a mod 4 * 16 div 16 = unat a" by simp
  then show ?case
    by (simp add: b64char_facts a byte_of_nat_unat)
next
  case (3 a b)
  have a: "unat a div 4 < 64" "unat a mod 4 * 16 + unat b div 16 < 64"
    "unat b mod 16 * 4 < 64"
    using unat_byte [of a] unat_byte [of b] by simp_all
  have e1: "unat a div 4 * 4 + (unat a mod 4 * 16 + unat b div 16) div 16 = unat a"
    using unat_byte [of b] by simp
  have e2: "(unat a mod 4 * 16 + unat b div 16) mod 16 * 16 + unat b mod 16 * 4 div 4 = unat b"
    using unat_byte [of b] by simp
  have f: "unat b div 16 div 16 = 0" "unat b div 16 mod 16 = unat b div 16"
    using unat_byte [of b] by simp_all
  show ?case
    by (simp add: b64char_facts a byte_of_nat_unat f)
next
  case (4 a b c bs)
  have a: "unat a div 4 < 64" "unat a mod 4 * 16 + unat b div 16 < 64"
    "unat b mod 16 * 4 + unat c div 64 < 64" "unat c mod 64 < 64"
    using unat_byte [of a] unat_byte [of b] unat_byte [of c] by simp_all
  have e1: "unat a div 4 * 4 + (unat a mod 4 * 16 + unat b div 16) div 16 = unat a"
    using unat_byte [of b] by simp
  have e2: "(unat a mod 4 * 16 + unat b div 16) mod 16 * 16
              + (unat b mod 16 * 4 + unat c div 64) div 4 = unat b"
    using unat_byte [of b] unat_byte [of c] by simp
  have e3: "(unat b mod 16 * 4 + unat c div 64) mod 4 * 64 + unat c mod 64 = unat c"
    using unat_byte [of c] by simp
  have f: "unat b div 16 div 16 = 0" "unat b div 16 mod 16 = unat b div 16"
    "unat c div 64 div 4 = 0" "unat c div 64 mod 4 = unat c div 64"
    using unat_byte [of b] unat_byte [of c] by simp_all
  show ?case
    using "4.IH" by (simp add: b64char_facts a byte_of_nat_unat f)
qed

lemma base64_no_quote: "CHR 0x22 \<notin> set (base64 bs)"
proof (induction bs rule: base64.induct)
  case 1
  then show ?case by simp
next
  case (2 a)
  have a: "unat a div 4 < 64" "unat a mod 4 * 16 < 64" using unat_byte [of a] by simp_all
  show ?case using b64char_facts(3) [OF a(1)] b64char_facts(3) [OF a(2)] by auto
next
  case (3 a b)
  have a: "unat a div 4 < 64" "unat a mod 4 * 16 + unat b div 16 < 64"
    "unat b mod 16 * 4 < 64"
    using unat_byte [of a] unat_byte [of b] by simp_all
  show ?case
    using b64char_facts(3) [OF a(1)] b64char_facts(3) [OF a(2)] b64char_facts(3) [OF a(3)]
    by auto
next
  case (4 a b c bs)
  have a: "unat a div 4 < 64" "unat a mod 4 * 16 + unat b div 16 < 64"
    "unat b mod 16 * 4 + unat c div 64 < 64" "unat c mod 64 < 64"
    using unat_byte [of a] unat_byte [of b] unat_byte [of c] by simp_all
  show ?case
    using "4.IH" b64char_facts(3) [OF a(1)] b64char_facts(3) [OF a(2)]
      b64char_facts(3) [OF a(3)] b64char_facts(3) [OF a(4)]
    by auto
qed

lemma of_char_digit: "of_char (digit n) = (48 + n mod 10 :: int)"
proof -
  have "0 \<le> n mod 10" "n mod 10 < 10" by simp_all
  then have "(48 + n mod 10) mod 256 = 48 + n mod 10"
    by (intro mod_pos_pos_trivial) linarith+
  then show ?thesis by (simp add: digit_def of_char_of)
qed

lemma is_digit_digit: "is_digit (digit n)"
proof -
  have "0 \<le> n mod 10" "n mod 10 < 10" by simp_all
  then show ?thesis unfolding is_digit_def of_char_digit by linarith
qed

lemma digits_value_snoc:
  "digits_value (ds @ [c]) = 10 * digits_value ds + (of_char c - 48)"
  by (simp add: digits_value_def)

lemma decimal_digits: "0 \<le> n \<Longrightarrow> (\<forall>c \<in> set (decimal n). is_digit c) \<and> digits_value (decimal n) = n"
proof (induction n rule: decimal.induct)
  case (1 n)
  show ?case
  proof (cases "n < 10")
    case True
    then have d: "decimal n = [digit n]" by (subst decimal.simps) simp
    have "n mod 10 = n" using True "1.prems" by simp
    then show ?thesis
      using digits_value_snoc [of "[]" "digit n"]
      by (simp add: d is_digit_digit of_char_digit digits_value_def)
  next
    case False
    then have d: "decimal n = decimal (n div 10) @ [digit n]"
      by (subst decimal.simps) simp
    have "0 \<le> n div 10" using "1.prems" by simp
    from "1.IH" [OF False this]
    have ih: "\<forall>c \<in> set (decimal (n div 10)). is_digit c"
      "digits_value (decimal (n div 10)) = n div 10"
      by simp_all
    show ?thesis
      using ih by (simp add: d is_digit_digit digits_value_snoc of_char_digit)
  qed
qed

lemma parse_uint64_decimal:
  assumes "0 \<le> n" and "n < 2 ^ 64" and "rest = [] \<or> \<not> is_digit (hd rest)"
  shows "parse_uint64 (decimal n @ rest) = Some (word_of_int n, rest)"
proof -
  have d: "\<And>c. c \<in> set (decimal n) \<Longrightarrow> is_digit c" and v: "digits_value (decimal n) = n"
    using decimal_digits [OF assms(1)] by simp_all
  have r: "takeWhile is_digit rest = []" "dropWhile is_digit rest = rest"
    using assms(3) by (cases rest; simp)+
  have t: "takeWhile is_digit (decimal n @ rest) = decimal n"
    using d by (simp add: takeWhile_append2 r)
  have dr: "dropWhile is_digit (decimal n @ rest) = rest"
    using d by (simp add: dropWhile_append2 r)
  show ?thesis using assms(2) by (simp add: parse_uint64_def Let_def t dr v)
qed

lemma json_roundtrip: "json_Unmarshal (json_Marshal dkr) = Some dkr"
proof -
  let ?fu = "uint (FirstUnchecked dkr)" and ?lc = "uint (LastChecked dkr)"
  let ?b = "base64 (BitStream dkr)"
  let ?t2 = "decimal ?lc @ ''}''"
  let ?t1 = "decimal ?fu @ json_LastChecked @ ?t2"
  have q: "\<And>c. c \<in> set ?b \<Longrightarrow> c \<noteq> CHR 0x22"
    using base64_no_quote [of "BitStream dkr"] by auto
  have k: "json_FirstUnchecked @ ?t1 = CHR 0x22 # tl json_FirstUnchecked @ ?t1"
    by (simp add: json_FirstUnchecked_def)
  have t: "takeWhile (\<lambda>c. c \<noteq> CHR 0x22) (?b @ json_FirstUnchecked @ ?t1) = ?b"
    unfolding k using q by (simp add: takeWhile_append2)
  have d: "dropWhile (\<lambda>c. c \<noteq> CHR 0x22) (?b @ json_FirstUnchecked @ ?t1)
             = json_FirstUnchecked @ ?t1"
    unfolding k using q by (simp add: dropWhile_append2)
  have b: "0 \<le> ?fu" "?fu < 2 ^ 64" "0 \<le> ?lc" "?lc < 2 ^ 64"
    using uint_lt2p [of "FirstUnchecked dkr"] uint_lt2p [of "LastChecked dkr"] by simp_all
  have "json_LastChecked @ ?t2 = [] \<or> \<not> is_digit (hd (json_LastChecked @ ?t2))"
    by (simp add: json_LastChecked_def is_digit_def)
  from parse_uint64_decimal [OF b(1,2) this]
  have p1: "parse_uint64 ?t1 = Some (FirstUnchecked dkr, json_LastChecked @ ?t2)"
    by simp
  have "''}'' = [] \<or> \<not> is_digit (hd ''}'')" by (simp add: is_digit_def)
  from parse_uint64_decimal [OF b(3,4) this]
  have p2: "parse_uint64 ?t2 = Some (LastChecked dkr, ''}'')"
    by simp
  have m: "json_Marshal dkr = json_open @ (?b @ json_FirstUnchecked @ ?t1)"
    by (simp add: json_Marshal_def)
  show ?thesis
    unfolding m json_Unmarshal_def
    by (simp only: strip_prefix_append t d unbase64_base64 p1 p2 option.case prod.case
          if_True simp_thms)
       (cases dkr, simp)
qed

lemma mod64W_div:
  fixes x W :: int
  assumes "0 \<le> W"
  shows "(x mod (64 * W)) div 64 = (x div 64) mod W"
proof -
  have "x mod (64 * W) = 64 * (x div 64 mod W) + x mod 64"
    using assms by (rule zmod_zmult2_eq)
  moreover have "(64 * (x div 64 mod W) + x mod 64) div 64 = x div 64 mod W"
    by simp
  ultimately show ?thesis by simp
qed

lemma mod64W_mod:
  fixes x W :: int
  shows "(x mod (64 * W)) mod 64 = x mod 64"
  by (simp add: mod_mod_cancel)

lemma div64_add:
  fixes a d :: int
  shows "(a + d) div 64 = a div 64 + (a mod 64 + d) div 64"
    and "(a + d) mod 64 = (a mod 64 + d) mod 64"
proof -
  have e: "a mod 64 + d + 64 * (a div 64) = a + d" by simp
  have "(a mod 64 + d + 64 * (a div 64)) div 64 = a div 64 + (a mod 64 + d) div 64"
    by (rule div_mult_self2) simp
  then show "(a + d) div 64 = a div 64 + (a mod 64 + d) div 64"
    by (simp only: e)
  show "(a + d) mod 64 = (a mod 64 + d) mod 64" by (simp add: mod_simps)
qed

lemma copy_go_fits:
  "length src \<le> length dst \<Longrightarrow> copy_go dst src = src @ drop (length src) dst"
  by (simp add: copy_go_def)

lemma copy_go_again:
  "copy_go (src @ tl') src = src @ tl'"
  by (simp add: copy_go_def)

text \<open>What \<^verbatim>\<open>Unmarshal\<close> stores once the document is decoded.\<close>

lemma Unmarshal_decoded:
  assumes j: "json_Unmarshal data = Some dkr"
    and u: "unmarshal_u64b (BitStream dkr) = ws"
    and cap: "bitStream kr2 = [] \<or> length ws \<le> length (bitStream kr2)"
  shows "Unmarshal kr2 data =
           Inr (kr2\<lparr> bitStream := ws @ drop (length ws) (bitStream kr2),
                      firstUnchecked := FirstUnchecked dkr,
                      lastChecked := LastChecked dkr,
                      fuPos := uint (FirstUnchecked dkr mod 64) \<rparr>)"
proof (cases "bitStream kr2 = []")
  case True
  have "copy_go ws ws = ws" using copy_go_again [of ws "[]"] by simp
  then show ?thesis using True by (simp add: Unmarshal_def j u Let_def)
next
  case False
  then have l: "length ws \<le> length (bitStream kr2)" using cap by simp
  have c1: "copy_go (bitStream kr2) ws = ws @ drop (length ws) (bitStream kr2)"
    using l by (rule copy_go_fits)
  have c2: "copy_go (ws @ drop (length ws) (bitStream kr2)) ws
              = ws @ drop (length ws) (bitStream kr2)"
    by (rule copy_go_again)
  show ?thesis using False l by (simp add: Unmarshal_def j u Let_def c1 c2)
qed

text \<open>What \<^verbatim>\<open>Marshal\<close> writes.\<close>

lemma Marshal_encoded:
  assumes "bitStream kr \<noteq> []"
  shows "Marshal kr =
           Inr (json_Marshal
             \<lparr> BitStream = marshal_u64b
                  (map (\<lambda>i. bitStream kr
                          ! ((i + fst (convertLoc (bitStream kr)
                                       (getBitStreamPos kr (firstUnchecked kr))))
                             mod length (bitStream kr)))
                     [0 ..< delta (bitStream kr) (getBitStreamPos kr (firstUnchecked kr))
                              (getBitStreamPos kr (lastChecked kr))]),
               FirstUnchecked = firstUnchecked kr,
               LastChecked = lastChecked kr \<rparr>)"
  using Len_pos [OF assms] by (simp add: Marshal_def Let_def split: prod.split)

text \<open>
  The bit of a round of the window, read in the buffer that \<^verbatim>\<open>Unmarshal\<close> fills
  from the compressed words.
\<close>

lemma roundtrip_bit:
  fixes kr kr2 :: KnownRounds and rid :: Round and t :: uint64Buff
  defines "a \<equiv> fuPos kr"
    and "D \<equiv> uint (lastChecked kr) - uint (firstUnchecked kr)"
    and "d \<equiv> uint rid - uint (firstUnchecked kr)"
    and "n \<equiv> delta (bitStream kr) (getBitStreamPos kr (firstUnchecked kr))
                 (getBitStreamPos kr (lastChecked kr))"
  defines "ws \<equiv> map (\<lambda>i. bitStream kr
                          ! ((i + fst (convertLoc (bitStream kr)
                                       (getBitStreamPos kr (firstUnchecked kr))))
                             mod length (bitStream kr))) [0 ..< n]"
  defines "kr2' \<equiv> kr2\<lparr> bitStream := ws @ t,
                         firstUnchecked := firstUnchecked kr,
                         lastChecked := lastChecked kr,
                         fuPos := uint (firstUnchecked kr mod 64) \<rparr>"
  assumes W: "bitStream kr \<noteq> []" and sz: "Len kr < 2 ^ 62"
    and P: "0 \<le> fuPos kr" "fuPos kr < Len kr"
    and A: "fuPos kr mod 64 = uint (firstUnchecked kr) mod 64"
    and span: "uint (firstUnchecked kr) mod 64 + D < Len kr"
    and lo: "firstUnchecked kr \<le> rid" and hi: "rid \<le> lastChecked kr"
  shows "0 < Len kr2'"
    and "get_u64b (bitStream kr2') (getBitStreamPos kr2' rid)
           = get_u64b (bitStream kr) (getBitStreamPos kr rid)"
proof -
  let ?b = "bitStream kr"
  let ?W = "int (length ?b)"
  let ?fu = "firstUnchecked kr"
  let ?lc = "lastChecked kr"
  define s where "s = a div 64"
  define o' where "o' = a mod 64"
  define k where "k = (o' + D) div 64"
  define j where "j = (o' + d) div 64"
  define q where "q = o' + d"
  have p62: "(2::int) ^ 62 = 4611686018427387904" by simp
  have L: "0 < Len kr" using W by (rule Len_pos)
  have C: "Len kr = 64 * ?W" by (simp add: Len_def)
  have W0: "0 < ?W" using W by simp
  have d0: "0 \<le> d" using lo by (simp add: d_def word_le_def)
  have dD: "d \<le> D" using hi by (simp add: d_def D_def word_le_def)
  have o0: "0 \<le> o'" "o' < 64" by (simp_all add: o'_def)
  have spanA: "o' + D < Len kr" using span A by (simp add: a_def o'_def)
  have D62: "D < 2 ^ 62" using spanA o0 sz by linarith
  have d62: "d < 2 ^ 62" using dD D62 by linarith
  have s0: "0 \<le> s" using P(1) by (simp add: s_def a_def)
  have oD0: "0 \<le> o' + D" using o0 d0 dD by linarith
  have q0: "0 \<le> q" using o0 d0 unfolding q_def by linarith
  have k0: "0 \<le> k" using oD0 by (simp add: k_def)
  have j0: "0 \<le> j" using q0 by (simp add: j_def q_def)
  have kW: "k < ?W" unfolding k_def using spanA C by (intro div64_less) simp
  have "o' + d \<le> o' + D" using dD by simp
  then have jk: "j \<le> k" unfolding j_def k_def by (rule zdiv_mono1) simp
  \<comment> \<open>positions in the source buffer\<close>
  have lefu: "?fu \<le> ?lc" using lo hi by simp
  have pf: "getBitStreamPos kr ?fu = a"
    using getBitStreamPos_above [OF sz L P, of ?fu] P by (simp add: a_def)
  have pl: "getBitStreamPos kr ?lc = (a + D) mod Len kr"
    using getBitStreamPos_above [OF sz L P lefu] D62 by (simp add: a_def D_def)
  have pr: "getBitStreamPos kr rid = (a + d) mod Len kr"
    using getBitStreamPos_above [OF sz L P lo] d62 by (simp add: a_def d_def)
  \<comment> \<open>the number of words written\<close>
  have "((a + D) mod Len kr) div 64 = ((a + D) div 64) mod ?W"
    unfolding C using W0 by (intro mod64W_div) simp
  also have "(a + D) div 64 = s + k" unfolding s_def k_def o'_def by (rule div64_add(1))
  finally have eb: "((a + D) mod Len kr) div 64 = (s + k) mod ?W" .
  have "((s + k) mod ?W - s) mod ?W = (s + k - s) mod ?W" by (rule mod_diff_left_eq)
  also have "\<dots> = k" using k0 kW by simp
  finally have "((s + k) mod ?W - s) mod ?W = k" .
  then have n: "n = nat k + 1"
    by (simp add: n_def delta_def pf pl eb s_def)
  have lws: "length ws = nat k + 1" by (simp add: ws_def n)
  \<comment> \<open>the first block\<close>
  have "a mod (64 * ?W) = a" using P C by (simp add: a_def)
  then have sb: "fst (convertLoc ?b (getBitStreamPos kr ?fu)) = nat s"
    by (simp add: convertLoc_def Let_def pf s_def)
  \<comment> \<open>the new buffer\<close>
  have L2: "Len kr2' = 64 * int (length (ws @ t))" by (simp add: kr2'_def Len_def)
  have L2n: "64 * (k + 1) \<le> Len kr2'" using k0 by (simp add: L2 lws)
  have "(0::int) < 64 * (k + 1)" using k0 by simp
  then have L2pos: "0 < Len kr2'" using L2n by (rule less_le_trans)
  show "0 < Len kr2'" by (rule L2pos)
  define m where "m = (o' + D) mod 64"
  have "o' + D = 64 * k + m" by (simp add: k_def m_def)
  moreover have "m < 64" by (simp add: m_def)
  ultimately have "o' + D < 64 * k + 64" by linarith
  then have "q < 64 * k + 64" using dD unfolding q_def by linarith
  then have q1: "q < 64 * (k + 1)" by simp
  have q2: "q < Len kr2'" using q1 L2n by (rule less_le_trans)
  have "\<bar>d\<bar> < 2 ^ 63" using d0 d62 unfolding p62 pow2 by linarith
  then have sd: "sint (rid - ?fu) = d" unfolding d_def by (rule sint_diff)
  have fp2: "fuPos kr2' = o'"
    using A by (simp add: kr2'_def a_def o'_def uint_mod)
  have "int64 q = q"
  proof (rule int64_id)
    show "- (2 ^ 63) \<le> q" using q0 unfolding pow2 by linarith
    show "q < 2 ^ 63" using o0 d62 unfolding q_def p62 pow2 by linarith
  qed
  moreover have "q smod Len kr2' = q mod Len kr2'"
    using q0 L2pos by (rule smod_pos)
  moreover have "q mod Len kr2' = q"
    using q0 q2 by (rule mod_pos_pos_trivial)
  ultimately have "int64 q smod Len kr2' = q" by simp
  moreover have "getBitStreamPos kr2' rid = int64 (fuPos kr2' + sint (rid - ?fu)) smod Len kr2'"
    using lo by (simp add: getBitStreamPos_def Let_def kr2'_def not_less [symmetric])
  ultimately have p2: "getBitStreamPos kr2' rid = q"
    by (simp add: fp2 sd q_def)
  \<comment> \<open>the word and the bit read in the new buffer\<close>
  have "q mod (64 * int (length (ws @ t))) = q"
    using q0 q2 unfolding L2 by (rule mod_pos_pos_trivial)
  then have c2: "convertLoc (ws @ t) q = (nat j, nat (q mod 64))"
    by (simp add: convertLoc_def Let_def j_def q_def)
  have jn: "nat j < length ws" using jk k0 j0 by (simp add: lws)
  have w2: "(ws @ t) ! nat j = ?b ! ((nat j + nat s) mod length ?b)"
    using jn by (simp add: nth_append ws_def sb lws)
  \<comment> \<open>the word and the bit read in the source buffer\<close>
  have "((a + d) mod Len kr) div 64 = ((a + d) div 64) mod ?W"
    unfolding C using W0 by (intro mod64W_div) simp
  also have "(a + d) div 64 = s + j" unfolding s_def j_def o'_def by (rule div64_add(1))
  finally have b1: "((a + d) mod Len kr) div 64 = (s + j) mod ?W" .
  have "nat ((s + j) mod ?W) = nat (s + j) mod nat ?W"
    using s0 j0 W0 by (intro nat_mod_distrib) simp_all
  then have b1': "nat ((s + j) mod ?W) = (nat j + nat s) mod length ?b"
    using s0 j0 by (simp add: nat_add_distrib add.commute)
  have "((a + d) mod Len kr) mod 64 = (a + d) mod 64"
    unfolding C by (rule mod64W_mod)
  also have "\<dots> = q mod 64" unfolding q_def o'_def by (rule div64_add(2))
  finally have b2: "((a + d) mod Len kr) mod 64 = q mod 64" .
  have "((a + d) mod Len kr) mod (64 * ?W) = (a + d) mod Len kr"
    unfolding C by simp
  then have c1: "convertLoc ?b ((a + d) mod Len kr)
                   = ((nat j + nat s) mod length ?b, nat (q mod 64))"
    by (simp add: convertLoc_def Let_def b1 b1' b2)
  show "get_u64b (bitStream kr2') (getBitStreamPos kr2' rid)
           = get_u64b (bitStream kr) (getBitStreamPos kr rid)"
  proof -
    have bs2: "bitStream kr2' = ws @ t" by (simp add: kr2'_def)
    show ?thesis by (simp add: get_u64b_def bs2 p2 pr c1 c2 w2)
  qed
qed

subsection \<open>Construction\<close>

text \<open>
  Claim C5, as amended. \<^verbatim>\<open>NewKnownRound\<close> takes the capacity in rounds: for
  \<open>0 \<le> c \<le> 2^51\<close> it allocates, the memory being there, \<open>(c + 63) div 64\<close> zero
  words, the least number of words holding \<open>c\<close> bits, with both cursors and
  \<open>fuPos\<close> at 0; for a greater
  \<open>c\<close> the call panics, the slice being longer than \<^verbatim>\<open>make\<close> accepts or
  \<open>c + 63\<close> having wrapped to a negative number. In particular
  \<^verbatim>\<open>NewKnownRound(5)\<close> has one word and \<^verbatim>\<open>Len() = 64\<close>, not 320.
\<close>

theorem NewKnownRound_words:
  "(0 \<le> c \<and> c \<le> 2 ^ 51 \<longrightarrow>
      NewKnownRound c =
        Inr \<lparr> bitStream = replicate (nat ((c + 63) div 64)) 0,
              firstUnchecked = 0, lastChecked = 0, fuPos = 0 \<rparr>
      \<and> c \<le> 64 * ((c + 63) div 64) \<and> 64 * ((c + 63) div 64) < c + 64)
   \<and> (2 ^ 51 < c \<and> c < 2 ^ 63 \<longrightarrow> NewKnownRound c = Inl LenOutOfRange)
   \<and> NewKnownRound 5 =
        Inr \<lparr> bitStream = [0], firstUnchecked = 0, lastChecked = 0, fuPos = 0 \<rparr>
   \<and> Len \<lparr> bitStream = [0], firstUnchecked = 0, lastChecked = 0, fuPos = 0 \<rparr> = 64"
proof -
  have e: "NewKnownRound 5 =
           Inr \<lparr> bitStream = [0], firstUnchecked = 0, lastChecked = 0, fuPos = 0 \<rparr>"
    by code_simp
  have i: "Len \<lparr> bitStream = [0], firstUnchecked = 0, lastChecked = 0, fuPos = 0 \<rparr> = 64"
    by (simp add: Len_def)
  show ?thesis
    using e i ceil64 [of c] NewKnownRound_fits [of c] NewKnownRound_too_large [of c]
    by blast
qed

theorem NewKnownRound_words_witness:
  "(0::int) \<le> 320 \<and> (320::int) \<le> 2 ^ 51 \<and>
   NewKnownRound 320 =
     Inr \<lparr> bitStream = [0, 0, 0, 0, 0], firstUnchecked = 0, lastChecked = 0, fuPos = 0 \<rparr>
   \<and> (2::int) ^ 51 < 9223372036854775807 \<and> (9223372036854775807::int) < 2 ^ 63
   \<and> NewKnownRound 9223372036854775807 = Inl LenOutOfRange"
proof -
  have A: "NewKnownRound 320 =
     Inr \<lparr> bitStream = [0, 0, 0, 0, 0], firstUnchecked = 0, lastChecked = 0, fuPos = 0 \<rparr>"
    using NewKnownRound_words [of 320] by (simp add: numeral_eq_Suc)
  have B: "NewKnownRound 9223372036854775807 = Inl LenOutOfRange"
    using NewKnownRound_words [of 9223372036854775807] by simp
  show ?thesis using A B by simp
qed

theorem NewKnownRound_5_counterexample:
  "map_sum id Len (NewKnownRound 5) \<noteq> Inr 320
   \<and> NewKnownRound 9223372036854775807 = Inl LenOutOfRange
   \<and> NewKnownRound 2251799813685249 = Inl LenOutOfRange"
  by code_simp

subsection \<open>Check and its guard\<close>

text \<open>
  Claim C3, as amended. On a buffer of at least one word, and for a round whose
  distance \<open>\<bar>lastChecked - rid\<bar>\<close> is below \<open>2^63\<close>, the strict \<^verbatim>\<open>Check\<close>
  panics if and only if the distance is at least the capacity \<open>C = 64\<sqdot>W\<close>; at a
  smaller distance it is the shared \<^verbatim>\<open>check\<close> body, which returns a state.
\<close>

theorem Check_panics_iff:
  assumes "bitStream kr \<noteq> []"
    and "\<bar>uint (lastChecked kr) - uint rid\<bar> < 2 ^ 63"
  shows "Check kr rid =
           (if Len kr \<le> \<bar>uint (lastChecked kr) - uint rid\<bar>
            then Inl OutOfScope else check kr rid)
         \<and> (\<exists>kr'. check kr rid = Inr kr')"
proof -
  let ?d = "\<bar>uint (lastChecked kr) - uint rid\<bar>"
  have L: "0 < Len kr" using assms(1) by (rule Len_pos)
  have a: "abs_go (sint (lastChecked kr - rid)) = ?d"
    using assms(2) by (rule abs_go_sint_diff)
  have "?d sdiv Len kr = ?d div Len kr" using L by (intro sdiv_pos) auto
  moreover have "(0 < ?d div Len kr) = (Len kr \<le> ?d)"
    using L by (rule pos_imp_zdiv_pos_iff)
  ultimately have "(0 < abs_go (sint (lastChecked kr - rid)) sdiv Len kr) = (Len kr \<le> ?d)"
    using a by simp
  then have "Check kr rid = (if Len kr \<le> ?d then Inl OutOfScope else check kr rid)"
    using L by (simp add: Check_def)
  then show ?thesis using check_returns [OF assms(1)] by blast
qed

theorem Check_panics_iff_witness:
  "bitStream \<lparr> bitStream = [0], firstUnchecked = 0, lastChecked = 0, fuPos = 0 \<rparr> \<noteq> []
   \<and> \<bar>uint (0 :: 64 word) - uint (64 :: 64 word)\<bar> < 2 ^ 63
   \<and> Check \<lparr> bitStream = [0], firstUnchecked = 0, lastChecked = 0, fuPos = 0 \<rparr> 64
       = Inl OutOfScope
   \<and> Check \<lparr> bitStream = [0], firstUnchecked = 0, lastChecked = 0, fuPos = 0 \<rparr> 63
       = check \<lparr> bitStream = [0], firstUnchecked = 0, lastChecked = 0, fuPos = 0 \<rparr> 63"
  using Check_panics_iff [of "\<lparr> bitStream = [0], firstUnchecked = 0, lastChecked = 0, fuPos = 0 \<rparr>" 64]
    Check_panics_iff [of "\<lparr> bitStream = [0], firstUnchecked = 0, lastChecked = 0, fuPos = 0 \<rparr>" 63]
  by (simp add: Len_def)

theorem Check_at_capacity_counterexample:
  "\<bar>uint (0 :: 64 word) - uint (64 :: 64 word)\<bar>
     \<le> Len \<lparr> bitStream = [0], firstUnchecked = 0, lastChecked = 0, fuPos = 0 \<rparr>
   \<and> Check \<lparr> bitStream = [0], firstUnchecked = 0, lastChecked = 0, fuPos = 0 \<rparr> 64
       = Inl OutOfScope
   \<and> Len \<lparr> bitStream = [0], firstUnchecked = 0, lastChecked = 0, fuPos = 0 \<rparr>
       < \<bar>uint (0 :: 64 word) - uint (18446744073709551615 :: 64 word)\<bar>
   \<and> Check \<lparr> bitStream = [0], firstUnchecked = 0, lastChecked = 0, fuPos = 0 \<rparr>
         18446744073709551615
       = check \<lparr> bitStream = [0], firstUnchecked = 0, lastChecked = 0, fuPos = 0 \<rparr>
           18446744073709551615
   \<and> check \<lparr> bitStream = [0], firstUnchecked = 0, lastChecked = 0, fuPos = 0 \<rparr>
         18446744073709551615 \<noteq> Inl OutOfScope"
  by code_simp

subsection \<open>Checked\<close>

text \<open>
  Claim C10. On a buffer of at least one word \<^verbatim>\<open>Checked\<close> returns, and whenever
  it returns it leaves the state as it found it (the bit stream, both cursors and
  \<open>fuPos\<close>), so that a second call with the same round gives the same answer.
\<close>

theorem Checked_pure:
  "(bitStream kr \<noteq> [] \<longrightarrow> (\<exists>b. Checked kr rid = Inr (b, kr)))
   \<and> (Checked kr rid = Inr (b, kr') \<longrightarrow> kr' = kr \<and> Checked kr' rid = Inr (b, kr'))"
proof -
  have "Len kr \<noteq> 0" if "bitStream kr \<noteq> []"
    using Len_pos [OF that] by simp
  then show ?thesis
    by (auto simp: Checked_def Let_def split: if_splits)
qed

theorem Checked_pure_witness:
  "bitStream \<lparr> bitStream = [0, - 1, 0, - 1, 0], firstUnchecked = 75, lastChecked = 200,
               fuPos = 11 \<rparr> \<noteq> []
   \<and> Checked \<lparr> bitStream = [0, - 1, 0, - 1, 0], firstUnchecked = 75, lastChecked = 200,
             fuPos = 11 \<rparr> 150
     = Inr (True, \<lparr> bitStream = [0, - 1, 0, - 1, 0], firstUnchecked = 75,
                    lastChecked = 200, fuPos = 11 \<rparr>)"
proof -
  have "Checked \<lparr> bitStream = [0, - 1, 0, - 1, 0], firstUnchecked = 75, lastChecked = 200,
                  fuPos = 11 \<rparr> 150
     = Inr (True, \<lparr> bitStream = [0, - 1, 0, - 1, 0], firstUnchecked = 75,
                    lastChecked = 200, fuPos = 11 \<rparr>)"
    by code_simp
  with Checked_pure [of "\<lparr> bitStream = [0, - 1, 0, - 1, 0], firstUnchecked = 75,
      lastChecked = 200, fuPos = 11 \<rparr>" 150 True "\<lparr> bitStream = [0, - 1, 0, - 1, 0],
      firstUnchecked = 75, lastChecked = 200, fuPos = 11 \<rparr>"]
  show ?thesis by simp
qed

subsection \<open>Forward\<close>





subsection \<open>ForceCheck on a stale round\<close>

text \<open>
  Claim C9, as amended. When \<^verbatim>\<open>ForceCheck(rid)\<close> is called with \<open>rid\<close> below the
  capacity \<open>C\<close> and \<open>lastChecked\<close> at a distance of at least \<open>C\<close> and less than
  \<open>2^63\<close> above \<open>rid\<close>, the guard trips, \<open>rid - C\<close> underflows to
  \<open>2^64 + rid - C\<close>, which exceeds \<open>lastChecked\<close>, and \<^verbatim>\<open>Forward\<close> resets both
  cursors to it; the \<^verbatim>\<open>check\<close> that follows finds \<open>rid\<close> below
  \<open>firstUnchecked\<close> and changes nothing more.
\<close>

theorem ForceCheck_stale_round:
  assumes "bitStream kr \<noteq> []" and "Len kr < 2 ^ 63"
    and "Len kr \<le> uint (lastChecked kr) - uint rid"
    and "uint (lastChecked kr) - uint rid < 2 ^ 63"
    and "uint rid < Len kr"
  shows "ForceCheck kr rid =
           Inr (kr\<lparr> firstUnchecked := rid - word_of_int (Len kr),
                     lastChecked := rid - word_of_int (Len kr),
                     fuPos := uint ((rid - word_of_int (Len kr)) mod 64) \<rparr>)
         \<and> uint (rid - word_of_int (Len kr)) = 2 ^ 64 + uint rid - Len kr
         \<and> lastChecked kr < rid - word_of_int (Len kr)"
proof -
  let ?r = "rid - word_of_int (Len kr)"
  have L: "0 < Len kr" using assms(1) by (rule Len_pos)
  have u: "uint ?r = 2 ^ 64 + uint rid - Len kr"
    using L assms(2,5) by (rule uint_sub_Len)
  have d: "\<bar>uint (lastChecked kr) - uint rid\<bar> = uint (lastChecked kr) - uint rid"
    using L assms(3) by simp
  have a: "abs_go (sint (lastChecked kr - rid)) = uint (lastChecked kr) - uint rid"
    using abs_go_sint_diff [of "lastChecked kr" rid] assms(4) d by simp
  have "(uint (lastChecked kr) - uint rid) sdiv Len kr
          = (uint (lastChecked kr) - uint rid) div Len kr"
    using L assms(3) by (intro sdiv_pos) auto
  moreover have "0 < (uint (lastChecked kr) - uint rid) div Len kr"
    using L assms(3) by (simp add: pos_imp_zdiv_pos_iff)
  ultimately have g: "0 < abs_go (sint (lastChecked kr - rid)) sdiv Len kr"
    using a by simp
  have "0 \<le> uint rid" by simp
  then have "uint (lastChecked kr) < 2 ^ 64 + uint rid - Len kr"
    using assms(2,4) unfolding pow2 by linarith
  then have lt: "lastChecked kr < ?r"
    using u by (simp add: word_less_def)
  have "uint rid < 2 ^ 64 + uint rid - Len kr"
    using assms(2) unfolding pow2 by linarith
  then have lt2: "rid < ?r"
    using u by (simp add: word_less_def)
  have F: "Forward kr ?r = Inr (kr\<lparr> firstUnchecked := ?r, lastChecked := ?r,
                                     fuPos := uint (?r mod 64) \<rparr>)"
    using lt by (simp add: Forward_def)
  have "ForceCheck kr rid = Inr (kr\<lparr> firstUnchecked := ?r, lastChecked := ?r,
                                     fuPos := uint (?r mod 64) \<rparr>)"
    using L g lt2 by (simp add: ForceCheck_def F check_def)
  then show ?thesis using u lt by blast
qed

theorem ForceCheck_stale_round_witness:
  "ForceCheck \<lparr> bitStream = [0], firstUnchecked = 100, lastChecked = 100, fuPos = 36 \<rparr> 5
     = Inr \<lparr> bitStream = [0], firstUnchecked = 18446744073709551557,
             lastChecked = 18446744073709551557, fuPos = 5 \<rparr>"
  using ForceCheck_stale_round
    [of "\<lparr> bitStream = [0], firstUnchecked = 100, lastChecked = 100, fuPos = 36 \<rparr>" 5]
  by (simp add: Len_def)

theorem ForceCheck_distant_counterexample:
  "ForceCheck \<lparr> bitStream = [0], firstUnchecked = 100, lastChecked = 100, fuPos = 36 \<rparr> 5
     = Inr \<lparr> bitStream = [0], firstUnchecked = 18446744073709551557,
             lastChecked = 18446744073709551557, fuPos = 5 \<rparr>
   \<and> Len \<lparr> bitStream = [0], firstUnchecked = 18446744073709551557,
            lastChecked = 18446744073709551557, fuPos = 5 \<rparr>
       \<le> uint (18446744073709551557 :: 64 word) - uint (4 :: 64 word)
   \<and> uint (4 :: 64 word)
       < Len \<lparr> bitStream = [0], firstUnchecked = 18446744073709551557,
               lastChecked = 18446744073709551557, fuPos = 5 \<rparr>
   \<and> ForceCheck \<lparr> bitStream = [0], firstUnchecked = 18446744073709551557,
                   lastChecked = 18446744073709551557, fuPos = 5 \<rparr> 4
       = Inr \<lparr> bitStream = [0], firstUnchecked = 18446744073709551557,
               lastChecked = 18446744073709551557, fuPos = 5 \<rparr>"
  by code_simp

subsection \<open>The cursors at the end of the round space\<close>

text \<open>
  Claim C6. The invariant \<open>firstUnchecked \<le> lastChecked + 1\<close> (\<open>cursors_ordered\<close>)
  holds in the fresh state and is kept by \<^verbatim>\<open>Forward\<close> and, for every round but
  the greatest, by \<^verbatim>\<open>Check\<close> and \<^verbatim>\<open>ForceCheck\<close> (lemmas
  \<open>NewKnownRound_cursors_ordered\<close>, \<open>Forward_cursors_ordered\<close>,
  \<open>Check_cursors_ordered\<close>, \<open>ForceCheck_cursors_ordered\<close>). At the greatest
  round id \<^verbatim>\<open>Check\<close> breaks it: after \<^verbatim>\<open>Forward(2^64 - 1)\<close>,
  \<^verbatim>\<open>Check(2^64 - 1)\<close> takes the single-bit branch, where \<open>rid + 1\<close> wraps to 0,
  and then the lapping branch, which leaves \<open>firstUnchecked = 2^64 - 1\<close> and
  \<open>lastChecked = 0\<close>.
\<close>

theorem Check_greatest_round_breaks_invariant:
  "NewKnownRound 64
     = Inr \<lparr> bitStream = [0], firstUnchecked = 0, lastChecked = 0, fuPos = 0 \<rparr>
   \<and> Forward \<lparr> bitStream = [0], firstUnchecked = 0, lastChecked = 0, fuPos = 0 \<rparr> (- 1)
     = Inr \<lparr> bitStream = [0], firstUnchecked = 18446744073709551615,
             lastChecked = 18446744073709551615, fuPos = 63 \<rparr>
   \<and> cursors_ordered \<lparr> bitStream = [0], firstUnchecked = 18446744073709551615,
                         lastChecked = 18446744073709551615, fuPos = 63 \<rparr>
   \<and> Check \<lparr> bitStream = [0], firstUnchecked = 18446744073709551615,
              lastChecked = 18446744073709551615, fuPos = 63 \<rparr> 18446744073709551615
     = Inr \<lparr> bitStream = [1], firstUnchecked = 18446744073709551615, lastChecked = 0,
             fuPos = 63 \<rparr>
   \<and> \<not> cursors_ordered \<lparr> bitStream = [1], firstUnchecked = 18446744073709551615,
                           lastChecked = 0, fuPos = 63 \<rparr>"
  by code_simp

subsection \<open>Checking a round twice\<close>

text \<open>
  Where \<^verbatim>\<open>Check\<close> does not lap the buffer it is idempotent: on a state with at
  least one word and \<open>0 \<le> fuPos < C\<close>, for a round \<open>rid\<close> other than the greatest
  round id that lies less than \<open>C\<close> rounds above \<open>firstUnchecked\<close> and for which
  \<^verbatim>\<open>Check(rid)\<close> does not panic, a second \<^verbatim>\<open>Check(rid)\<close> leaves the state (bit
  buffer, both cursors and \<open>fuPos\<close>) exactly as the first one left it.
\<close>

theorem Check_idempotent_without_lap:
  assumes W: "bitStream kr \<noteq> []" and sz: "Len kr < 2 ^ 62"
    and P: "0 \<le> fuPos kr" "fuPos kr < Len kr"
    and nolap: "uint rid - uint (firstUnchecked kr) < Len kr"
    and nomax: "rid \<noteq> - 1"
    and first: "Check kr rid = Inr kr'"
  shows "Check kr' rid = Inr kr'"
proof -
  have L: "0 < Len kr" using W by (rule Len_pos)
  have L64: "64 \<le> Len kr" using W by (cases "bitStream kr") (simp_all add: Len_def)
  have g: "\<not> 0 < abs_go (sint (lastChecked kr - rid)) sdiv Len kr"
    using first L by (auto simp: Check_def split: if_splits)
  have c: "check kr rid = Inr kr'"
    using first L by (auto simp: Check_def split: if_splits)
  consider (below) "rid < firstUnchecked kr" | (at) "rid = firstUnchecked kr"
    | (above) "firstUnchecked kr < rid"
    by (metis not_less_iff_gr_or_eq)
  then show ?thesis
  proof cases
    case below
    then have "kr' = kr" using c by (simp add: check_def)
    then show ?thesis using first by simp
  next
    case at
    from check_at_first [OF W at nomax] c
    have f: "rid < firstUnchecked kr'"
      and l: "lastChecked kr' = rid + 1 \<or> lastChecked kr' = lastChecked kr"
      and L': "Len kr' = Len kr"
      by auto
    have "\<not> 0 < abs_go (sint (lastChecked kr' - rid)) sdiv Len kr'"
      using l g guard_near(2) [OF L64, of rid] by (auto simp: L')
    moreover have "check kr' rid = Inr kr'" using f by (simp add: check_def)
    ultimately show ?thesis using L by (simp add: Check_def L')
  next
    case above
    let ?pos = "getBitStreamPos kr rid"
    let ?X = "if lastChecked kr < rid
              then clearRange (set_u64b (bitStream kr) ?pos)
                     (getBitStreamPos kr (lastChecked kr + 1)) ?pos
              else set_u64b (bitStream kr) ?pos"
    let ?lc = "if lastChecked kr < rid then rid else lastChecked kr"
    have k: "kr' = kr\<lparr> bitStream := set_u64b ?X ?pos, lastChecked := ?lc \<rparr>"
      using check_inside [OF sz L P above nolap] c by simp
    have L': "Len kr' = Len kr" by (simp add: k Len_def)
    have fu': "firstUnchecked kr' = firstUnchecked kr" and fp': "fuPos kr' = fuPos kr"
      and lc': "lastChecked kr' = ?lc" and bs': "bitStream kr' = set_u64b ?X ?pos"
      by (simp_all add: k)
    have pos': "getBitStreamPos kr' rid = ?pos"
      by (rule getBitStreamPos_cong) (simp_all add: fu' fp' L')
    have nlt: "\<not> lastChecked kr' < rid" by (simp add: lc')
    have "check kr' rid =
            Inr (kr'\<lparr> bitStream := set_u64b (set_u64b (bitStream kr') ?pos) ?pos,
                       lastChecked := lastChecked kr' \<rparr>)"
      using check_inside [of kr' rid] sz L P above nolap nlt
      by (simp add: L' fu' fp' pos')
    also have "set_u64b (set_u64b (bitStream kr') ?pos) ?pos = bitStream kr'"
      by (simp add: bs' set_u64b_twice)
    finally have c2: "check kr' rid = Inr kr'" by simp
    have "\<not> 0 < abs_go (sint (lastChecked kr' - rid)) sdiv Len kr'"
      using g guard_near(1) [OF L64, of rid] by (auto simp: L' lc')
    then show ?thesis using L c2 by (simp add: Check_def L')
  qed
qed

theorem Check_idempotent_without_lap_witness:
  "Check \<lparr> bitStream = [0, - 1, 0, - 1, 0], firstUnchecked = 75, lastChecked = 200,
           fuPos = 11 \<rparr> 320
     = Inr \<lparr> bitStream = [0, - 1, 0, 0, 9223372036854775808], firstUnchecked = 75,
             lastChecked = 320, fuPos = 11 \<rparr>
   \<and> Check \<lparr> bitStream = [0, - 1, 0, 0, 9223372036854775808], firstUnchecked = 75,
             lastChecked = 320, fuPos = 11 \<rparr> 320
     = Inr \<lparr> bitStream = [0, - 1, 0, 0, 9223372036854775808], firstUnchecked = 75,
             lastChecked = 320, fuPos = 11 \<rparr>"
proof -
  have e: "Check \<lparr> bitStream = [0, - 1, 0, - 1, 0], firstUnchecked = 75, lastChecked = 200,
           fuPos = 11 \<rparr> 320
     = Inr \<lparr> bitStream = [0, - 1, 0, 0, 9223372036854775808], firstUnchecked = 75,
             lastChecked = 320, fuPos = 11 \<rparr>"
    by code_simp
  have "Check \<lparr> bitStream = [0, - 1, 0, 0, 9223372036854775808], firstUnchecked = 75,
             lastChecked = 320, fuPos = 11 \<rparr> 320
     = Inr \<lparr> bitStream = [0, - 1, 0, 0, 9223372036854775808], firstUnchecked = 75,
             lastChecked = 320, fuPos = 11 \<rparr>"
    by (rule Check_idempotent_without_lap [OF _ _ _ _ _ _ e]) (simp_all add: Len_def)
  with e show ?thesis by simp
qed

text \<open>
  Claim C7. \<^verbatim>\<open>Check\<close> is not idempotent when the round laps the buffer. On a
  buffer of 64 rounds, after \<^verbatim>\<open>Check(10)\<close> the call \<^verbatim>\<open>Check(70)\<close> takes the
  lapping branch of \<^verbatim>\<open>check\<close>: it stores \<open>rid + 1 - Len()\<close> in
  \<open>firstUnchecked\<close> and then calls \<^verbatim>\<open>migrateFirstUnchecked(rid)\<close>, which
  overwrites it with \<open>rid\<close>, so the state is \<open>firstUnchecked = lastChecked = 70\<close>
  with the bit of round 70 set. A second \<^verbatim>\<open>Check(70)\<close> finds a single-bit window
  and moves both cursors to 71.
\<close>

theorem Check_twice_after_lap:
  "NewKnownRound 64
     = Inr \<lparr> bitStream = [0], firstUnchecked = 0, lastChecked = 0, fuPos = 0 \<rparr>
   \<and> Check \<lparr> bitStream = [0], firstUnchecked = 0, lastChecked = 0, fuPos = 0 \<rparr> 10
     = Inr \<lparr> bitStream = [9007199254740992], firstUnchecked = 0, lastChecked = 10,
             fuPos = 0 \<rparr>
   \<and> Check \<lparr> bitStream = [9007199254740992], firstUnchecked = 0, lastChecked = 10,
             fuPos = 0 \<rparr> 70
     = Inr \<lparr> bitStream = [153122387330596864], firstUnchecked = 70, lastChecked = 70,
             fuPos = 6 \<rparr>
   \<and> Check \<lparr> bitStream = [153122387330596864], firstUnchecked = 70, lastChecked = 70,
             fuPos = 6 \<rparr> 70
     = Inr \<lparr> bitStream = [153122387330596864], firstUnchecked = 71, lastChecked = 71,
             fuPos = 7 \<rparr>"
  by code_simp

subsection \<open>The scan of the buffer in RangeUnchecked\<close>

text \<open>
  Claim C2, as amended. In the loop of \<^verbatim>\<open>RangeUnchecked\<close> over the rounds of the
  buffer, entered at round \<open>i\<close> with any scan state (and with \<open>lastChecked\<close> below
  the greatest round id, so that the loop ends): a round with \<^verbatim>\<open>Checked(j)\<close> false
  is skipped, without a call of \<^verbatim>\<open>roundCheck\<close> and without a use of the budget;
  \<^verbatim>\<open>roundCheck\<close> is called, as far as the budget goes, on exactly the rounds \<open>j\<close>
  of \<open>[i, lastChecked]\<close> with \<^verbatim>\<open>Checked(j)\<close> true, in increasing order. When the
  budget is not used up, the loop runs to its end and every round that is
  unchecked or fails \<^verbatim>\<open>roundCheck\<close> has lowered \<open>earliestChecked\<close> to
  \<open>min(earliestChecked, j)\<close>: it ends at the first such round, if that is below
  its value at entry.
\<close>

theorem inBuffer_scan:
  assumes W: "bitStream kr \<noteq> []" and nomax: "lastChecked kr \<noteq> - 1"
    and start: "unat i \<le> Suc (unat (lastChecked kr))"
  shows "\<exists>ex. inBuffer kr maxChecked roundCheck i st = Some (Inr ex)
           \<and> calls (scan_of ex) =
               calls st @ take (unat maxChecked - unat (numChecked st))
                            (filter (\<lambda>j. Checked kr j = Inr (True, kr))
                               (rounds i (lastChecked kr)))
           \<and> (unat (numChecked st)
                 + length (filter (\<lambda>j. Checked kr j = Inr (True, kr))
                             (rounds i (lastChecked kr))) < unat maxChecked
               \<longrightarrow> ex = Finished (scan_of ex)
                 \<and> earliestChecked (scan_of ex) =
                     (case find (\<lambda>j. Checked kr j \<noteq> Inr (True, kr) \<or> \<not> roundCheck j)
                             (rounds i (lastChecked kr)) of
                        None \<Rightarrow> earliestChecked st
                      | Some j \<Rightarrow> if j < earliestChecked st then j
                                  else earliestChecked st))"
  using start
proof (induction "Suc (unat (lastChecked kr)) - unat i" arbitrary: i st rule: less_induct)
  case less
  let ?lc = "lastChecked kr"
  let ?chk = "\<lambda>j. Checked kr j = Inr (True, kr)"
  let ?fails = "\<lambda>j. Checked kr j \<noteq> Inr (True, kr) \<or> \<not> roundCheck j"
  show ?case
  proof (cases "i \<le> ?lc")
    case False
    then have "unat i = Suc (unat ?lc)"
      using less.prems by (simp add: word_le_nat_alt)
    then have r: "rounds i ?lc = []" by (rule rounds_Nil)
    have "inBuffer kr maxChecked roundCheck i st = Some (Inr (Finished st))"
      using False by (subst inBuffer.simps) simp
    then show ?thesis by (simp add: r)
  next
    case le: True
    have r: "rounds i ?lc = i # rounds (i + 1) ?lc"
      using le nomax by (rule rounds_Cons)
    have gt: "\<And>j. j \<in> set (rounds (i + 1) ?lc) \<Longrightarrow> i < j"
      using le nomax by (rule rounds_greater [rotated])
    have "i \<noteq> - 1"
    proof
      assume "i = - 1"
      then have "?lc = - 1" using le by (simp add: word_order.extremum_unique)
      then show False using nomax by simp
    qed
    then have u: "unat (i + 1) = Suc (unat i)" by (rule unat_succ)
    have ui: "unat i \<le> unat ?lc" using le by (simp add: word_le_nat_alt)
    have dec: "Suc (unat ?lc) - unat (i + 1) < Suc (unat ?lc) - unat i"
      using u ui by simp
    have st': "unat (i + 1) \<le> Suc (unat ?lc)" using u ui by simp
    note IH = less.hyps [OF dec st']
    show ?thesis
    proof (cases "maxChecked \<le> numChecked st")
      case True
      then have z: "unat maxChecked - unat (numChecked st) = 0"
        by (simp add: word_le_nat_alt)
      have n: "\<not> unat (numChecked st)
                 + length (filter ?chk (rounds i ?lc)) < unat maxChecked"
        using True by (simp add: word_le_nat_alt)
      have "inBuffer kr maxChecked roundCheck i st =
              Some (Inr (Returned (st\<lparr> earliestChecked :=
                   (if i < earliestChecked st then i else earliestChecked st) \<rparr>)))"
        using le True by (subst inBuffer.simps) simp
      then show ?thesis using z n by simp
    next
      case budget: False
      then have lt: "numChecked st < maxChecked" by simp
      then have ult: "unat (numChecked st) < unat maxChecked"
        by (simp add: word_less_nat_alt)
      have un: "unat (numChecked st + 1) = Suc (unat (numChecked st))"
        using lt by (rule unat_succ_less)
      from Checked_cases [OF W, of i] show ?thesis
      proof
        assume c: "Checked kr i = Inr (True, kr)"
        let ?st2 = "st\<lparr> earliestChecked :=
                          (if \<not> roundCheck i \<and> i < earliestChecked st
                           then i else earliestChecked st),
                        numChecked := numChecked st + 1,
                        calls := calls st @ [i] \<rparr>"
        have e: "inBuffer kr maxChecked roundCheck i st
                   = inBuffer kr maxChecked roundCheck (i + 1) ?st2"
          using le budget c by (subst inBuffer.simps) simp
        from IH [of ?st2] obtain ex where
          ex: "inBuffer kr maxChecked roundCheck (i + 1) ?st2 = Some (Inr ex)"
          and cl: "calls (scan_of ex) =
                     calls ?st2 @ take (unat maxChecked - unat (numChecked ?st2))
                                    (filter ?chk (rounds (i + 1) ?lc))"
          and am: "unat (numChecked ?st2)
                     + length (filter ?chk (rounds (i + 1) ?lc)) < unat maxChecked
                   \<Longrightarrow> ex = Finished (scan_of ex)
                     \<and> earliestChecked (scan_of ex) =
                         (case find ?fails (rounds (i + 1) ?lc) of
                            None \<Rightarrow> earliestChecked ?st2
                          | Some j \<Rightarrow> if j < earliestChecked ?st2 then j
                                      else earliestChecked ?st2)"
          by blast
        have k: "unat maxChecked - unat (numChecked st)
                   = Suc (unat maxChecked - Suc (unat (numChecked st)))"
          using ult by simp
        have cl': "calls (scan_of ex) =
                     calls st @ take (unat maxChecked - unat (numChecked st))
                                  (filter ?chk (rounds i ?lc))"
          using cl c by (simp add: r un k)
        have am': "ex = Finished (scan_of ex)
                     \<and> earliestChecked (scan_of ex) =
                         (case find ?fails (rounds i ?lc) of
                            None \<Rightarrow> earliestChecked st
                          | Some j \<Rightarrow> if j < earliestChecked st then j
                                      else earliestChecked st)"
          if a: "unat (numChecked st) + length (filter ?chk (rounds i ?lc))
                   < unat maxChecked"
        proof -
          have "unat (numChecked ?st2)
                  + length (filter ?chk (rounds (i + 1) ?lc)) < unat maxChecked"
            using a c by (simp add: r un)
          from am [OF this] have f: "ex = Finished (scan_of ex)"
            and ea: "earliestChecked (scan_of ex) =
                         (case find ?fails (rounds (i + 1) ?lc) of
                            None \<Rightarrow> earliestChecked ?st2
                          | Some j \<Rightarrow> if j < earliestChecked ?st2 then j
                                      else earliestChecked ?st2)"
            by simp_all
          show ?thesis
          proof (cases "roundCheck i")
            case True
            then show ?thesis using f ea c by (simp add: r split: option.split)
          next
            case False
            have "earliestChecked ?st2 \<le> i" using False by (simp add: not_less)
            from earliest_absorb [of "rounds (i + 1) ?lc" i "earliestChecked ?st2" ?fails,
                OF gt this]
            have "earliestChecked (scan_of ex) = earliestChecked ?st2"
              using ea by (simp split: option.split_asm option.split)
            then show ?thesis using f False by (simp add: r)
          qed
        qed
        show ?thesis using e ex cl' am' by simp
      next
        assume c: "Checked kr i = Inr (False, kr)"
        let ?st1 = "st\<lparr> earliestChecked :=
                          (if i < earliestChecked st then i else earliestChecked st) \<rparr>"
        have e: "inBuffer kr maxChecked roundCheck i st
                   = inBuffer kr maxChecked roundCheck (i + 1) ?st1"
          using le budget c by (subst inBuffer.simps) simp
        from IH [of ?st1] obtain ex where
          ex: "inBuffer kr maxChecked roundCheck (i + 1) ?st1 = Some (Inr ex)"
          and cl: "calls (scan_of ex) =
                     calls ?st1 @ take (unat maxChecked - unat (numChecked ?st1))
                                    (filter ?chk (rounds (i + 1) ?lc))"
          and am: "unat (numChecked ?st1)
                     + length (filter ?chk (rounds (i + 1) ?lc)) < unat maxChecked
                   \<Longrightarrow> ex = Finished (scan_of ex)
                     \<and> earliestChecked (scan_of ex) =
                         (case find ?fails (rounds (i + 1) ?lc) of
                            None \<Rightarrow> earliestChecked ?st1
                          | Some j \<Rightarrow> if j < earliestChecked ?st1 then j
                                      else earliestChecked ?st1)"
          by blast
        have cl': "calls (scan_of ex) =
                     calls st @ take (unat maxChecked - unat (numChecked st))
                                  (filter ?chk (rounds i ?lc))"
          using cl c by (simp add: r)
        have am': "ex = Finished (scan_of ex)
                     \<and> earliestChecked (scan_of ex) =
                         (case find ?fails (rounds i ?lc) of
                            None \<Rightarrow> earliestChecked st
                          | Some j \<Rightarrow> if j < earliestChecked st then j
                                      else earliestChecked st)"
          if a: "unat (numChecked st) + length (filter ?chk (rounds i ?lc))
                   < unat maxChecked"
        proof -
          have "unat (numChecked ?st1)
                  + length (filter ?chk (rounds (i + 1) ?lc)) < unat maxChecked"
            using a c by (simp add: r)
          from am [OF this] have f: "ex = Finished (scan_of ex)"
            and ea: "earliestChecked (scan_of ex) =
                         (case find ?fails (rounds (i + 1) ?lc) of
                            None \<Rightarrow> earliestChecked ?st1
                          | Some j \<Rightarrow> if j < earliestChecked ?st1 then j
                                      else earliestChecked ?st1)"
            by simp_all
          have "earliestChecked ?st1 \<le> i" by (simp add: not_less)
          from earliest_absorb [of "rounds (i + 1) ?lc" i "earliestChecked ?st1" ?fails,
              OF gt this]
          have "earliestChecked (scan_of ex) = earliestChecked ?st1"
            using ea by (simp split: option.split_asm option.split)
          then show ?thesis using f c by (simp add: r)
        qed
        show ?thesis using e ex cl' am' by simp
      qed
    qed
  qed
qed

theorem inBuffer_scan_witness:
  "\<exists>ex. inBuffer \<lparr> bitStream = [4611686018427387904], firstUnchecked = 0,
                     lastChecked = 3, fuPos = 0 \<rparr> 10 (\<lambda>j. j \<noteq> 1) 0
               \<lparr> numChecked = 0, earliestChecked = - 1, calls = [] \<rparr> = Some (Inr ex)
         \<and> calls (scan_of ex) = [1]
         \<and> ex = Finished (scan_of ex)
         \<and> earliestChecked (scan_of ex) = 0"
proof -
  let ?kr = "\<lparr> bitStream = [4611686018427387904], firstUnchecked = 0,
                lastChecked = 3, fuPos = 0 \<rparr>"
  have r: "rounds 0 3 = [0, 1, 2, 3]" by code_simp
  have c: "Checked ?kr 0 = Inr (False, ?kr)" "Checked ?kr 1 = Inr (True, ?kr)"
    "Checked ?kr 2 = Inr (False, ?kr)" "Checked ?kr 3 = Inr (False, ?kr)"
    by code_simp+
  show ?thesis
    using inBuffer_scan [of ?kr 0 10 "\<lambda>j. j \<noteq> 1"
        "\<lparr> numChecked = 0, earliestChecked = - 1, calls = [] \<rparr>"]
    by (simp add: r c word_gt_0)
qed

theorem RangeUnchecked_skips_unchecked_counterexample:
  "map_sum id fst (Checked \<lparr> bitStream = [4611686018427387904], firstUnchecked = 0,
                            lastChecked = 3, fuPos = 0 \<rparr> 0) = Inr False
   \<and> map_sum id fst (Checked \<lparr> bitStream = [4611686018427387904], firstUnchecked = 0,
                            lastChecked = 3, fuPos = 0 \<rparr> 1) = Inr True
   \<and> RangeUnchecked \<lparr> bitStream = [4611686018427387904], firstUnchecked = 0,
                       lastChecked = 3, fuPos = 0 \<rparr> 0 10 (\<lambda>j. True)
       = Some (Inr (1, [1]))"
  by code_simp


subsection \<open>The snapshot\<close>

text \<open>
  Claim C1, as amended. \<^verbatim>\<open>Marshal\<close> emits the envelope with the field
  \<^verbatim>\<open>BitStream\<close> as a JSON string: the standard base64 text of the big-endian
  bytes, eight per word, of the compressed active span (\<^verbatim>\<open>DiskKnownRounds.BitStream\<close>
  is a \<^verbatim>\<open>[]byte\<close>); it is not an array of integers. For the state
  \<open>bitStream = [0, 2^64 - 1, 0, 2^64 - 1, 0]\<close>, \<open>firstUnchecked = 75\<close>,
  \<open>lastChecked = 150\<close>, \<open>fuPos = 75\<close> the result is exactly
  \<^verbatim>\<open>{"BitStream":"//////////8AAAAAAAAAAA==","FirstUnchecked":75,"LastChecked":150}\<close>.
\<close>

theorem Marshal_base64_string:
  assumes "bitStream kr \<noteq> []"
  shows \<open>Marshal kr =
           Inr (''{"BitStream":"''
                @ base64 (marshal_u64b
                    (map (\<lambda>i. bitStream kr
                            ! ((i + fst (convertLoc (bitStream kr)
                                          (getBitStreamPos kr (firstUnchecked kr))))
                               mod length (bitStream kr)))
                       [0 ..< delta (bitStream kr) (getBitStreamPos kr (firstUnchecked kr))
                                (getBitStreamPos kr (lastChecked kr))]))
                @ ''","FirstUnchecked":'' @ decimal (uint (firstUnchecked kr))
                @ '',"LastChecked":'' @ decimal (uint (lastChecked kr)) @ ''}'')
         \<and> length (marshal_u64b
                (map (\<lambda>i. bitStream kr
                        ! ((i + fst (convertLoc (bitStream kr)
                                      (getBitStreamPos kr (firstUnchecked kr))))
                           mod length (bitStream kr)))
                   [0 ..< delta (bitStream kr) (getBitStreamPos kr (firstUnchecked kr))
                            (getBitStreamPos kr (lastChecked kr))]))
             = 8 * delta (bitStream kr) (getBitStreamPos kr (firstUnchecked kr))
                     (getBitStreamPos kr (lastChecked kr))
         \<and> Marshal \<lparr> bitStream = [0, - 1, 0, - 1, 0], firstUnchecked = 75,
                      lastChecked = 150, fuPos = 75 \<rparr>
             = Inr ''{"BitStream":"//////////8AAAAAAAAAAA==","FirstUnchecked":75,"LastChecked":150}''\<close>
proof -
  let ?ws = "map (\<lambda>i. bitStream kr
                          ! ((i + fst (convertLoc (bitStream kr)
                                       (getBitStreamPos kr (firstUnchecked kr))))
                             mod length (bitStream kr)))
                [0 ..< delta (bitStream kr) (getBitStreamPos kr (firstUnchecked kr))
                         (getBitStreamPos kr (lastChecked kr))]"
  have l: "length (marshal_u64b ?ws)
             = 8 * delta (bitStream kr) (getBitStreamPos kr (firstUnchecked kr))
                     (getBitStreamPos kr (lastChecked kr))"
    using length_marshal_u64b [of ?ws] by simp
  have m: \<open>Marshal kr =
            Inr (''{"BitStream":"'' @ base64 (marshal_u64b ?ws)
                 @ ''","FirstUnchecked":'' @ decimal (uint (firstUnchecked kr))
                 @ '',"LastChecked":'' @ decimal (uint (lastChecked kr)) @ ''}'')\<close>
    unfolding Marshal_encoded [OF assms]
    by (simp add: json_Marshal_def json_open_def json_FirstUnchecked_def json_LastChecked_def)
  have s: \<open>Marshal \<lparr> bitStream = [0, - 1, 0, - 1, 0], firstUnchecked = 75,
                      lastChecked = 150, fuPos = 75 \<rparr>
             = Inr ''{"BitStream":"//////////8AAAAAAAAAAA==","FirstUnchecked":75,"LastChecked":150}''\<close>
    by code_simp
  show ?thesis using l m s by blast
qed

theorem Marshal_base64_string_witness:
  \<open>Marshal \<lparr> bitStream = [0, - 1, 0, 0, 0], firstUnchecked = 75, lastChecked = 150,
             fuPos = 11 \<rparr>
     = Inr ''{"BitStream":"AAAAAAAAAAD//////////w==","FirstUnchecked":75,"LastChecked":150}''
   \<and> Marshal \<lparr> bitStream = [0, - 1, 0, - 1, 0], firstUnchecked = 75,
                lastChecked = 150, fuPos = 75 \<rparr>
     = Inr ''{"BitStream":"//////////8AAAAAAAAAAA==","FirstUnchecked":75,"LastChecked":150}''\<close>
proof -
  have M: \<open>Marshal \<lparr> bitStream = [0, - 1, 0, 0, 0], firstUnchecked = 75, lastChecked = 150,
             fuPos = 11 \<rparr>
     = Inr ''{"BitStream":"AAAAAAAAAAD//////////w==","FirstUnchecked":75,"LastChecked":150}''\<close>
    by code_simp
  have "bitStream \<lparr> bitStream = [0, - 1, 0, - 1, 0], firstUnchecked = 75,
                lastChecked = 150, fuPos = 75 \<rparr> \<noteq> []"
    by simp
  from Marshal_base64_string [OF this, THEN conjunct2, THEN conjunct2] M
  show ?thesis by (rule conjI [rotated])
qed

theorem Marshal_integer_array_counterexample:
  \<open>Marshal \<lparr> bitStream = [0, - 1, 0, - 1, 0], firstUnchecked = 75, lastChecked = 150,
             fuPos = 75 \<rparr>
     \<noteq> Inr ''{"BitStream":[18446744073709551615,0],"FirstUnchecked":75,"LastChecked":150}''\<close>
  by code_simp

text \<open>
  The round trip where the window does not come round to the word it starts in.
  Let \<open>kr\<close> have at least one word, \<open>0 \<le> fuPos < C\<close> and
  \<open>fuPos \<equiv> firstUnchecked (mod 64)\<close>, and let
  \<open>firstUnchecked mod 64 + (lastChecked - firstUnchecked) < C\<close>. If
  \<^verbatim>\<open>kr.Marshal()\<close> returns \<open>data\<close> and the buffer of \<open>kr2\<close> is empty or has at
  least as many words as \<^verbatim>\<open>Marshal\<close> wrote, then \<^verbatim>\<open>kr2.Unmarshal(data)\<close>
  succeeds, and afterwards both cursors and \<^verbatim>\<open>Checked(rid)\<close>, for every round, are
  those of \<open>kr\<close>.
\<close>

theorem Marshal_Unmarshal_roundtrip:
  assumes W: "bitStream kr \<noteq> []" and sz: "Len kr < 2 ^ 62"
    and P: "0 \<le> fuPos kr" "fuPos kr < Len kr"
    and A: "fuPos kr mod 64 = uint (firstUnchecked kr) mod 64"
    and span: "uint (firstUnchecked kr) mod 64
                 + (uint (lastChecked kr) - uint (firstUnchecked kr)) < Len kr"
    and M: "Marshal kr = Inr data"
    and cap: "bitStream kr2 = []
                \<or> delta (bitStream kr) (getBitStreamPos kr (firstUnchecked kr))
                      (getBitStreamPos kr (lastChecked kr)) \<le> length (bitStream kr2)"
  shows "\<exists>kr2'. Unmarshal kr2 data = Inr kr2'
           \<and> firstUnchecked kr2' = firstUnchecked kr
           \<and> lastChecked kr2' = lastChecked kr
           \<and> (\<forall>rid. map_sum id fst (Checked kr2' rid) = map_sum id fst (Checked kr rid))"
proof -
  define n where "n = delta (bitStream kr) (getBitStreamPos kr (firstUnchecked kr))
                        (getBitStreamPos kr (lastChecked kr))"
  define ws where "ws = map (\<lambda>i. bitStream kr
                          ! ((i + fst (convertLoc (bitStream kr)
                                       (getBitStreamPos kr (firstUnchecked kr))))
                             mod length (bitStream kr))) [0 ..< n]"
  define dkr where "dkr = \<lparr> BitStream = marshal_u64b ws,
                             FirstUnchecked = firstUnchecked kr,
                             LastChecked = lastChecked kr \<rparr>"
  define t where "t = drop (length ws) (bitStream kr2)"
  define kr2' where "kr2' = kr2\<lparr> bitStream := ws @ t,
                                 firstUnchecked := firstUnchecked kr,
                                 lastChecked := lastChecked kr,
                                 fuPos := uint (firstUnchecked kr mod 64) \<rparr>"
  have lws: "length ws = n" by (simp add: ws_def)
  have "data = json_Marshal dkr"
    using Marshal_encoded [OF W] M by (simp add: dkr_def ws_def n_def)
  then have j: "json_Unmarshal data = Some dkr" by (simp add: json_roundtrip)
  have u: "unmarshal_u64b (BitStream dkr) = ws"
    by (simp add: dkr_def unmarshal_marshal)
  have cap': "bitStream kr2 = [] \<or> length ws \<le> length (bitStream kr2)"
    using cap by (simp add: lws n_def)
  have U: "Unmarshal kr2 data = Inr kr2'"
    using Unmarshal_decoded [OF j u cap'] by (simp add: kr2'_def t_def dkr_def)
  have fu2: "firstUnchecked kr2' = firstUnchecked kr"
    and lc2: "lastChecked kr2' = lastChecked kr"
    by (simp_all add: kr2'_def)
  have L: "0 < Len kr" using W by (rule Len_pos)
  have C: "map_sum id fst (Checked kr2' rid) = map_sum id fst (Checked kr rid)" for rid
  proof (cases "rid < firstUnchecked kr \<or> lastChecked kr < rid")
    case True
    then show ?thesis by (auto simp: Checked_def fu2 lc2)
  next
    case False
    then have lo: "firstUnchecked kr \<le> rid" and hi: "rid \<le> lastChecked kr"
      by (simp_all add: not_less)
    have r: "0 < Len kr2'"
      "get_u64b (bitStream kr2') (getBitStreamPos kr2' rid)
         = get_u64b (bitStream kr) (getBitStreamPos kr rid)"
      unfolding kr2'_def ws_def n_def
      using roundtrip_bit [where ?kr2.0 = kr2 and t = t, OF W sz P A span lo hi] by simp_all
    show ?thesis using False L r by (simp add: Checked_def fu2 lc2 Let_def)
  qed
  show ?thesis using U fu2 lc2 C by blast
qed

theorem Marshal_Unmarshal_roundtrip_witness:
  \<open>Marshal \<lparr> bitStream = [0, - 1, 0, 0, 0], firstUnchecked = 75, lastChecked = 150,
             fuPos = 11 \<rparr>
     = Inr ''{"BitStream":"AAAAAAAAAAD//////////w==","FirstUnchecked":75,"LastChecked":150}''
   \<and> (\<exists>kr2'. Unmarshal \<lparr> bitStream = [0, 0, 0, 0, 0], firstUnchecked = 0,
                             lastChecked = 0, fuPos = 0 \<rparr>
               ''{"BitStream":"AAAAAAAAAAD//////////w==","FirstUnchecked":75,"LastChecked":150}''
             = Inr kr2'
          \<and> firstUnchecked kr2' = 75 \<and> lastChecked kr2' = 150
          \<and> (\<forall>rid. map_sum id fst (Checked kr2' rid)
                 = map_sum id fst (Checked \<lparr> bitStream = [0, - 1, 0, 0, 0],
                     firstUnchecked = 75, lastChecked = 150, fuPos = 11 \<rparr> rid)))\<close>
proof -
  let ?kr = "\<lparr> bitStream = [0, - 1, 0, 0, 0], firstUnchecked = 75, lastChecked = 150,
               fuPos = 11 \<rparr>"
  let ?kr2 = "\<lparr> bitStream = [0, 0, 0, 0, 0], firstUnchecked = 0, lastChecked = 0,
               fuPos = 0 \<rparr>"
  have M: \<open>Marshal ?kr
     = Inr ''{"BitStream":"AAAAAAAAAAD//////////w==","FirstUnchecked":75,"LastChecked":150}''\<close>
    by code_simp
  have d: "delta (bitStream ?kr) (getBitStreamPos ?kr (firstUnchecked ?kr))
             (getBitStreamPos ?kr (lastChecked ?kr)) = 2"
    by code_simp
  have "bitStream ?kr2 = []
          \<or> delta (bitStream ?kr) (getBitStreamPos ?kr (firstUnchecked ?kr))
                (getBitStreamPos ?kr (lastChecked ?kr)) \<le> length (bitStream ?kr2)"
    unfolding d by simp
  from Marshal_Unmarshal_roundtrip [OF _ _ _ _ _ _ M this]
  show ?thesis using M by (simp add: Len_def)
qed

end
